theory Spec2Isabelle
  imports Main "HOL-Library.Word" "HOL-Library.Multiset"
begin

section \<open>Strings\<close>

text \<open>
  A Go string that holds valid UTF-8 (titles decoded from JSON or read from a Postgres
  text column) is modelled as the list of its runes, a rune being a Unicode code point.
  Two such strings are equal in Go exactly when their rune lists are equal, and
  \<^verbatim>\<open>for _, r := range s\<close> visits the runes in order. Error messages are plain ASCII
  and are written as HOL strings.
\<close>

type_synonym rune = nat
type_synonym gostring = "rune list"

definition runes :: "string \<Rightarrow> gostring" where
  "runes s = map of_char s"

text \<open>
  \<^verbatim>\<open>strings.ToLower\<close> maps \<^verbatim>\<open>unicode.ToLower\<close> over the runes. The case table of
  Go's standard library is not part of the repository, so the rune mapping is a
  parameter \<open>lw\<close> of every function that lowercases; the theorems hold for every
  such mapping. The scenarios are evaluated with \<open>toLowerLatin1\<close>, the table
  restricted to the Basic Latin and Latin-1 blocks (U+0041..U+005A and U+00C0..U+00DE
  without U+00D7 move up by 32), which is all the scenarios contain.
\<close>

definition ToLower :: "(rune \<Rightarrow> rune) \<Rightarrow> gostring \<Rightarrow> gostring" where
  "ToLower lw s = map lw s"

definition toLowerLatin1 :: "rune \<Rightarrow> rune" where
  "toLowerLatin1 r =
     (if (65 \<le> r \<and> r \<le> 90) \<or> (192 \<le> r \<and> r \<le> 222 \<and> r \<noteq> 215) then r + 32 else r)"

text \<open>
  \<^verbatim>\<open>unicode.IsSpace\<close>: tab, line feed, vertical tab, form feed, carriage return,
  space, U+0085, U+00A0 and the other code points with the White_Space property.
\<close>

definition isSpace :: "rune \<Rightarrow> bool" where
  "isSpace r \<longleftrightarrow>
     (9 \<le> r \<and> r \<le> 13) \<or> r = 32 \<or> r = 133 \<or> r = 160 \<or> r = 5760 \<or>
     (8192 \<le> r \<and> r \<le> 8202) \<or> r = 8232 \<or> r = 8233 \<or> r = 8239 \<or> r = 8287 \<or>
     r = 12288"

definition TrimSpace :: "gostring \<Rightarrow> gostring" where
  "TrimSpace s = rev (dropWhile isSpace (rev (dropWhile isSpace s)))"

text \<open>
  \<^verbatim>\<open>strings.ReplaceAll(s, old, new)\<close>: the non-overlapping occurrences of \<open>old\<close>,
  found from the left, are replaced. An empty \<open>old\<close> matches before every rune and at
  the end.
\<close>

function ReplaceAll :: "gostring \<Rightarrow> gostring \<Rightarrow> gostring \<Rightarrow> gostring" where
  "ReplaceAll s old new =
     (if old = [] then new @ concat (map (\<lambda>r. r # new) s)
      else if s = [] then []
      else if take (length old) s = old
        then new @ ReplaceAll (drop (length old) s) old new
      else hd s # ReplaceAll (tl s) old new)"
  by pat_completeness auto
termination
  by (relation "measure (\<lambda>(s, old, new). length s)") auto

section \<open>Key normalizer\<close>

text \<open>
  \<^verbatim>\<open>
  func generateHandle(title string) string {
      handle := strings.ToLower(title)
      handle = strings.ReplaceAll(handle, " ", "-")
      handle = strings.ReplaceAll(handle, "_", "-")
      var builder strings.Builder
      for _, r := range handle {
          if (r >= 'a' && r <= 'z') || (r >= '0' && r <= '9') || r == '-' {
              builder.WriteRune(r)
          }
      }
      return builder.String()
  }
  \<close>
  The runes: \<open>' '\<close> is 32, \<open>'-'\<close> is 45, \<open>'0'..'9'\<close> are 48..57, \<open>'_'\<close> is 95 and
  \<open>'a'..'z'\<close> are 97..122.
\<close>

definition keepRune :: "rune \<Rightarrow> bool" where
  "keepRune r \<longleftrightarrow> (97 \<le> r \<and> r \<le> 122) \<or> (48 \<le> r \<and> r \<le> 57) \<or> r = 45"

definition writeRunes :: "gostring \<Rightarrow> gostring \<Rightarrow> gostring" where
  "writeRunes builder handle =
     foldl (\<lambda>b r. if keepRune r then b @ [r] else b) builder handle"

definition generateHandle :: "(rune \<Rightarrow> rune) \<Rightarrow> gostring \<Rightarrow> gostring" where
  "generateHandle lw title =
     (let handle = ToLower lw title;
          handle = ReplaceAll handle [32] [45];
          handle = ReplaceAll handle [95] [45]
      in writeRunes [] handle)"

definition normalizeTitle :: "(rune \<Rightarrow> rune) \<Rightarrow> gostring \<Rightarrow> gostring" where
  "normalizeTitle lw title = ToLower lw (TrimSpace title)"

text \<open>
  The reference definition of the handle, following the words of the specification:
  lowercase, replace each space and each underscore with a hyphen, then delete every
  character that is not a lowercase ASCII letter, a decimal digit or a hyphen.
\<close>

definition DeriveHandle_spec :: "(rune \<Rightarrow> rune) \<Rightarrow> gostring \<Rightarrow> gostring" where
  "DeriveHandle_spec lw t =
     filter (\<lambda>r. r \<in> {97..122} \<union> {48..57} \<union> {45})
       (map (\<lambda>r. if r = 32 \<or> r = 95 then 45 else r) (map lw t))"

section \<open>Data contracts\<close>

text \<open>
  \<^verbatim>\<open>models.Product\<close> has the fields \<open>ID\<close>, \<open>Title\<close> and \<open>Handle\<close>; the create batch
  holds \<^verbatim>\<open>struct{ Title, Handle string }\<close> and the update batch
  \<^verbatim>\<open>struct{ ID int; Title string; Handle string }\<close>, which has the fields of a
  product. The counters of \<^verbatim>\<open>models.SyncResult\<close> are lengths of slices and cannot
  overflow; they and the identifiers, on which no arithmetic is done, are integers.
\<close>

record NewProduct =
  Title :: gostring
  Handle :: gostring

record Product = NewProduct +
  ID :: int

record SyncResult =
  Created :: int
  Updated :: int
  Unchanged :: int
  Errors :: "string list"

text \<open>
  A remote record is a \<^verbatim>\<open>map[string]interface{}\<close>. Of the dynamic values only the
  distinction between a string and anything else is inspected.
\<close>

datatype iface = AString gostring | AInt int | ABool bool | ANil | AOther

type_synonym item = "gostring \<rightharpoonup> iface"

section \<open>Sync engine\<close>

text \<open>
  The lookup table of \<^verbatim>\<open>CompareAndSync\<close>:
  \<^verbatim>\<open>
  dbProductMap := make(map[string]*models.Product)
  for i := range dbProducts {
      normalizedTitle := normalizeTitle(dbProducts[i].Title)
      dbProductMap[normalizedTitle] = &dbProducts[i]
  }
  \<close>
  The products are not mutated afterwards, so the pointer is modelled by the product.
\<close>

definition buildProductMap :: "(rune \<Rightarrow> rune) \<Rightarrow> Product list \<Rightarrow> (gostring \<rightharpoonup> Product)" where
  "buildProductMap lw dbProducts =
     foldl (\<lambda>m p. m(normalizeTitle lw (Title p) \<mapsto> p)) Map.empty dbProducts"

text \<open>The local state of the classification loop: the result and the two batches.\<close>

record SyncState =
  result :: SyncResult
  itemsToCreate :: "NewProduct list"
  itemsToUpdate :: "Product list"

definition initState :: SyncState where
  "initState =
     \<lparr>result = \<lparr>Created = 0, Updated = 0, Unchanged = 0, Errors = []\<rparr>,
      itemsToCreate = [], itemsToUpdate = []\<rparr>"

text \<open>\<^verbatim>\<open>itemName, ok := item["ItemName"].(string)\<close>\<close>

definition itemName_of :: "item \<Rightarrow> gostring \<times> bool" where
  "itemName_of item =
     (case item (runes ''ItemName'') of
        Some (AString s) \<Rightarrow> (s, True)
      | _ \<Rightarrow> ([], False))"

text \<open>One iteration of the loop over \<^verbatim>\<open>externalItems\<close> (lines 48 to 82).\<close>

definition processItem ::
  "(rune \<Rightarrow> rune) \<Rightarrow> (gostring \<rightharpoonup> Product) \<Rightarrow> SyncState \<Rightarrow> item \<Rightarrow> SyncState" where
  "processItem lw dbProductMap st item =
     (let (itemName, ok) = itemName_of item in
      if \<not> ok \<or> itemName = [] then
        st\<lparr>result := (result st)\<lparr>Errors := Errors (result st) @
              [''Invalid or missing ItemName in external item'']\<rparr>\<rparr>
      else
        let handle = generateHandle lw itemName;
            normalizedTitle = normalizeTitle lw itemName
        in (case dbProductMap normalizedTitle of
              Some existingProduct \<Rightarrow>
                if Title existingProduct \<noteq> itemName \<or> Handle existingProduct \<noteq> handle then
                  st\<lparr>itemsToUpdate := itemsToUpdate st @
                        [\<lparr>Title = itemName, Handle = handle, ID = ID existingProduct\<rparr>]\<rparr>
                else
                  st\<lparr>result := (result st)\<lparr>Unchanged := Unchanged (result st) + 1\<rparr>\<rparr>
            | None \<Rightarrow>
                st\<lparr>itemsToCreate := itemsToCreate st @
                      [\<lparr>Title = itemName, Handle = handle\<rparr>]\<rparr>))"

definition processItems ::
  "(rune \<Rightarrow> rune) \<Rightarrow> (gostring \<rightharpoonup> Product) \<Rightarrow> SyncState \<Rightarrow> item list \<Rightarrow> SyncState" where
  "processItems lw dbProductMap st externalItems =
     foldl (processItem lw dbProductMap) st externalItems"

text \<open>The state when the loop is left: the partition of the remote records.\<close>

definition classify :: "(rune \<Rightarrow> rune) \<Rightarrow> Product list \<Rightarrow> item list \<Rightarrow> SyncState" where
  "classify lw dbProducts externalItems =
     processItems lw (buildProductMap lw dbProducts) initState externalItems"

text \<open>
  The dispatch (lines 84 to 127). Both calls of the repository are commented out in
  the source: the first goroutine only assigns \<^verbatim>\<open>result.Created\<close>, the second only
  logs, and nothing is sent on \<^verbatim>\<open>errChan\<close>. The two goroutines touch disjoint data,
  so their order does not matter.
  \<^verbatim>\<open>
  if len(itemsToCreate) > 0 {
      go func() {
          // if err := s.repo.CreateProductsBatch(ctx, itemsToCreate); err != nil { ...
          // } else {
              result.Created = len(itemsToCreate)
          // }
      }()
  }
  if len(itemsToUpdate) > 0 {
      go func() {
          // if err := s.repo.UpdateProductsBatch(ctx, itemsToUpdate); err != nil { ...
          // } else {
          //     result.Updated = len(itemsToUpdate)
              log.Printf("Updated %d products", len(itemsToUpdate))
          // }
      }()
  }
  \<close>
\<close>

definition dispatch :: "SyncState \<Rightarrow> SyncResult" where
  "dispatch st =
     (let r = result st;
          r = (if length (itemsToCreate st) > 0
               then r\<lparr>Created := int (length (itemsToCreate st))\<rparr> else r);
          r = (if length (itemsToUpdate st) > 0 then r else r)
      in r)"

text \<open>
  \<^verbatim>\<open>CompareAndSync\<close>; the outcome of \<^verbatim>\<open>s.repo.GetAllProducts(ctx)\<close> is an argument, an
  error message or the persisted records.
\<close>

definition CompareAndSync ::
  "(rune \<Rightarrow> rune) \<Rightarrow> string + Product list \<Rightarrow> item list \<Rightarrow> string + SyncResult" where
  "CompareAndSync lw getAllProducts externalItems =
     (case getAllProducts of
        Inl err \<Rightarrow> Inl (''failed to fetch database products: '' @ err)
      | Inr dbProducts \<Rightarrow> Inr (dispatch (classify lw dbProducts externalItems)))"

section \<open>Persistence gateway\<close>

text \<open>
  The table \<^verbatim>\<open>products (id SERIAL PRIMARY KEY, title TEXT NOT NULL, handle TEXT)\<close>: its
  rows, and the next value of the sequence behind \<^verbatim>\<open>id\<close>. A handle may be NULL.
\<close>

record Row =
  row_id :: int
  row_title :: gostring
  row_handle :: "gostring option"

record Store =
  rows :: "Row list"
  nextID :: int

text \<open>
  \<^verbatim>\<open>SELECT id, title, COALESCE(handle, '') as handle FROM products ORDER BY id\<close>
\<close>

definition scanRow :: "Row \<Rightarrow> Product" where
  "scanRow r =
     \<lparr>Title = row_title r,
      Handle = (case row_handle r of None \<Rightarrow> [] | Some h \<Rightarrow> h),
      ID = row_id r\<rparr>"

definition GetAllProducts :: "Store \<Rightarrow> Product list" where
  "GetAllProducts s = map scanRow (sort_key row_id (rows s))"

text \<open>
  \<^verbatim>\<open>INSERT INTO products (title, handle) VALUES ($1, $2) ON CONFLICT (handle) DO NOTHING\<close>:
  a row that already holds the handle makes the statement do nothing; otherwise
  the row gets the next value of the sequence.
\<close>

definition insertRow :: "Store \<Rightarrow> NewProduct \<Rightarrow> Store" where
  "insertRow s p =
     (if Some (Handle p) \<in> set (map row_handle (rows s)) then s
      else s\<lparr>rows := rows s @
                 [\<lparr>row_id = nextID s, row_title = Title p, row_handle = Some (Handle p)\<rparr>],
             nextID := nextID s + 1\<rparr>)"

text \<open>
  \<^verbatim>\<open>UPDATE products SET title = $1, handle = $2 WHERE id = $3\<close>: every row with
  the identifier gets the title and the handle. The statement is modelled as it is
  written; the repository names the handle as the conflict target of the insert and
  declares no constraint that an update could violate.
\<close>

definition updateRow :: "Store \<Rightarrow> Product \<Rightarrow> Store" where
  "updateRow s u =
     s\<lparr>rows := map (\<lambda>r. if row_id r = ID u
                         then r\<lparr>row_title := Title u, row_handle := Some (Handle u)\<rparr>
                         else r) (rows s)\<rparr>"

text \<open>
  What the database driver can report to a batch: nothing, or a failure to begin the
  transaction, to prepare the statement, to execute the statement of the element
  with the given index, or to commit. A batch that fails is rolled back by the
  deferred \<^verbatim>\<open>tx.Rollback()\<close>, so the table is as before and only the message is
  returned.
\<close>

datatype dbfault = NoFault | BeginFails | PrepareFails | ExecFails nat | CommitFails

definition CreateProductsBatch :: "dbfault \<Rightarrow> Store \<Rightarrow> NewProduct list \<Rightarrow> string + Store" where
  "CreateProductsBatch fault s products =
     (if length products = 0 then Inr s
      else case fault of
        BeginFails \<Rightarrow> Inl ''failed to begin transaction''
      | PrepareFails \<Rightarrow> Inl ''failed to prepare statement''
      | ExecFails i \<Rightarrow>
          if i < length products then Inl ''failed to insert product''
          else Inr (foldl insertRow s products)
      | CommitFails \<Rightarrow> Inl ''failed to commit transaction''
      | NoFault \<Rightarrow> Inr (foldl insertRow s products))"

definition UpdateProductsBatch :: "dbfault \<Rightarrow> Store \<Rightarrow> Product list \<Rightarrow> string + Store" where
  "UpdateProductsBatch fault s updates =
     (if length updates = 0 then Inr s
      else case fault of
        BeginFails \<Rightarrow> Inl ''failed to begin transaction''
      | PrepareFails \<Rightarrow> Inl ''failed to prepare statement''
      | ExecFails i \<Rightarrow>
          if i < length updates then Inl ''failed to update product''
          else Inr (foldl updateRow s updates)
      | CommitFails \<Rightarrow> Inl ''failed to commit transaction''
      | NoFault \<Rightarrow> Inr (foldl updateRow s updates))"

text \<open>
  The two batches are dispatched as two concurrent transactions. Their statements
  reach the table in some interleaving: a schedule is a list of writes that keeps
  the order of each batch.
\<close>

datatype dbwrite = Insert NewProduct | Update Product

fun applyWrite :: "Store \<Rightarrow> dbwrite \<Rightarrow> Store" where
  "applyWrite s (Insert p) = insertRow s p"
| "applyWrite s (Update u) = updateRow s u"

definition applyWrites :: "Store \<Rightarrow> dbwrite list \<Rightarrow> Store" where
  "applyWrites s ws = foldl applyWrite s ws"

definition schedules :: "SyncState \<Rightarrow> dbwrite list set" where
  "schedules st = shuffles (map Insert (itemsToCreate st)) (map Update (itemsToUpdate st))"

text \<open>A sync pass against a store: the records read from it are classified.\<close>

definition syncPass :: "(rune \<Rightarrow> rune) \<Rightarrow> Store \<Rightarrow> item list \<Rightarrow> SyncState" where
  "syncPass lw s externalItems = classify lw (GetAllProducts s) externalItems"

text \<open>A remote record is valid when its display name is a non-empty string.\<close>

definition validItem :: "item \<Rightarrow> bool" where
  "validItem i \<longleftrightarrow> snd (itemName_of i) \<and> fst (itemName_of i) \<noteq> []"

definition validTitles :: "item list \<Rightarrow> gostring list" where
  "validTitles externalItems = map (\<lambda>i. fst (itemName_of i)) (filter validItem externalItems)"

text \<open>
  The invariants of the table: the primary key is unique and was drawn from the
  sequence, and no two rows have the same normalized title.
\<close>

definition rowKey :: "(rune \<Rightarrow> rune) \<Rightarrow> Row \<Rightarrow> gostring" where
  "rowKey lw r = normalizeTitle lw (row_title r)"

definition storeOK :: "(rune \<Rightarrow> rune) \<Rightarrow> Store \<Rightarrow> bool" where
  "storeOK lw s \<longleftrightarrow>
     distinct (map row_id (rows s)) \<and>
     list_all (\<lambda>r. row_id r < nextID s) (rows s) \<and>
     distinct (map (rowKey lw) (rows s))"

text \<open>
  What holds of the table while the writes of one pass are applied to the store \<open>s\<close>
  that the pass read. \<open>V\<close> is the set of the valid remote titles. A row is synced when
  it holds a remote title and its handle. A write of the pass is admissible: an insert
  brings a remote title whose key and handle no row of \<open>s\<close> has, an update brings a
  remote title to the row of \<open>s\<close> that has its key.
\<close>

definition syncedRow :: "(rune \<Rightarrow> rune) \<Rightarrow> gostring set \<Rightarrow> Row \<Rightarrow> bool" where
  "syncedRow lw V r \<longleftrightarrow>
     row_title r \<in> V \<and> row_handle r = Some (generateHandle lw (row_title r))"

fun admissible :: "(rune \<Rightarrow> rune) \<Rightarrow> gostring set \<Rightarrow> Store \<Rightarrow> dbwrite \<Rightarrow> bool" where
  "admissible lw V s (Insert c) \<longleftrightarrow>
     Title c \<in> V \<and> Handle c = generateHandle lw (Title c) \<and>
     (\<forall>r\<in>set (rows s). rowKey lw r \<noteq> normalizeTitle lw (Title c)) \<and>
     Some (Handle c) \<notin> set (map row_handle (rows s))"
| "admissible lw V s (Update u) \<longleftrightarrow>
     Title u \<in> V \<and> Handle u = generateHandle lw (Title u) \<and>
     (\<exists>r\<in>set (rows s). row_id r = ID u \<and> rowKey lw r = normalizeTitle lw (Title u))"

definition schedInv :: "(rune \<Rightarrow> rune) \<Rightarrow> gostring set \<Rightarrow> Store \<Rightarrow> Store \<Rightarrow> bool" where
  "schedInv lw V s x \<longleftrightarrow>
     distinct (map row_id (rows x)) \<and>
     (\<forall>r\<in>set (rows x). row_id r < nextID x) \<and>
     nextID s \<le> nextID x \<and>
     (\<forall>r\<in>set (rows x). row_id r < nextID s \<longrightarrow>
        (\<exists>r0\<in>set (rows s). row_id r0 = row_id r \<and> rowKey lw r0 = rowKey lw r \<and>
           (r = r0 \<or> syncedRow lw V r))) \<and>
     (\<forall>r\<in>set (rows x). nextID s \<le> row_id r \<longrightarrow>
        syncedRow lw V r \<and> rowKey lw r \<notin> rowKey lw ` set (rows s)) \<and>
     distinct (map (rowKey lw) (rows x)) \<and>
     (\<forall>r0\<in>set (rows s). \<exists>r\<in>set (rows x). row_id r = row_id r0)"

definition writesDone :: "Store \<Rightarrow> dbwrite list \<Rightarrow> Store \<Rightarrow> bool" where
  "writesDone s ws x \<longleftrightarrow>
     (\<forall>c. Insert c \<in> set ws \<longrightarrow>
        (\<exists>r\<in>set (rows x). row_title r = Title c \<and> row_handle r = Some (Handle c))) \<and>
     (\<forall>u. Update u \<in> set ws \<longrightarrow>
        (\<exists>r\<in>set (rows x). row_id r = ID u \<and> row_title r = Title u \<and>
           row_handle r = Some (Handle u))) \<and>
     (\<forall>r0\<in>set (rows s). (\<forall>u. Update u \<in> set ws \<longrightarrow> ID u \<noteq> row_id r0) \<longrightarrow>
        r0 \<in> set (rows x))"

section \<open>Paged fetcher\<close>

text \<open>
  Go's \<^verbatim>\<open>int\<close> on the 64-bit platforms the service is deployed to: addition wraps
  around and \<^verbatim>\<open><\<close> compares signed values.
\<close>

type_synonym goint = "64 word"

record PageJob =
  Skip :: goint
  Top :: goint

record PageResult =
  Items :: "item list"
  Skip :: goint
  Err :: "string option"

text \<open>
  The check of the collected outcomes (lines 178 to 187); the error wraps the offset
  and the cause.
  \<^verbatim>\<open>
  var allItems []map[string]interface{}
  for _, result := range allResults {
      if result.Err != nil {
          return nil, fmt.Errorf("error fetching page at skip %d: %w", result.Skip, result.Err)
      }
      allItems = append(allItems, result.Items...)
  }
  return allItems, nil
  \<close>
\<close>

datatype fetchError = ErrorFetchingPage goint string

fun combineResults :: "item list \<Rightarrow> PageResult list \<Rightarrow> fetchError + item list" where
  "combineResults allItems [] = Inr allItems"
| "combineResults allItems (r # rs) =
     (case Err r of
        Some e \<Rightarrow> Inl (ErrorFetchingPage (PageResult.Skip r) e)
      | None \<Rightarrow> combineResults (allItems @ Items r) rs)"

text \<open>
  A call of \<^verbatim>\<open>fetchAllItemsConcurrently\<close>. What \<^verbatim>\<open>fetchItemsPage\<close> returns is up to
  the remote service: it is a parameter, a function of the number of requests made
  before, of the limit and of the offset.
\<close>

record fetchCall =
  fetchItemsPage :: "nat \<Rightarrow> goint \<Rightarrow> goint \<Rightarrow> string + item list"
  totalCount :: goint
  pageSize :: goint
  numWorkers :: goint

text \<open>
  The goroutines of the call and where each of them stands. The producer (lines 148
  to 158) is about to send the job with an offset, or has closed the queue:
  \<^verbatim>\<open>
  for skip := 0; skip < totalCount; skip += pageSize {
      select {
      case jobs <- PageJob{Skip: skip, Top: pageSize}:
      case <-ctx.Done():
          close(jobs)
          return
      }
  }
  close(jobs)
  \<close>
  A worker (lines 191 to 224) waits for a job, holds a job before its first
  \<^verbatim>\<open>select\<close>, holds an outcome before its second \<^verbatim>\<open>select\<close>, or has returned:
  \<^verbatim>\<open>
  for job := range jobs {
      select {
      case <-ctx.Done():
          return
      default:
          items, err := fetchItemsPage(config, sessionID, job.Top, job.Skip)
          result := PageResult{Items: items, Skip: job.Skip, Err: err}
          select {
          case results <- result:
          case <-ctx.Done():
              return
          }
      }
  }
  \<close>
  The caller (lines 171 to 187) waits for the workers, closes the outcome stream,
  waits for the collector and returns what the check of the outcomes gives.
\<close>

datatype producerPoint = Sending goint | ProducerDone

datatype workerPoint = Ranging | Selecting PageJob | Handing PageResult | WorkerDone

datatype callerPoint = WaitWorkers | WaitCollector | Returned "fetchError + item list"

text \<open>
  The state of a call: whether the context is done, the goroutines, the two channels
  (\<^verbatim>\<open>make(chan PageJob, numWorkers*2)\<close> and \<^verbatim>\<open>make(chan PageResult, numWorkers*2)\<close>, each
  with the elements that wait in it and whether it is closed), the slice of the
  collector, and three logs: the jobs sent, the requests made by \<^verbatim>\<open>fetchItemsPage\<close>
  and the outcomes they produced.
\<close>

record fetchState =
  ctxDone :: bool
  producer :: producerPoint
  jobs :: "PageJob list"
  jobsClosed :: bool
  workers :: "workerPoint list"
  results :: "PageResult list"
  resultsClosed :: bool
  allResults :: "PageResult list"
  collectorDone :: bool
  caller :: callerPoint
  sentJobs :: "PageJob list"
  requests :: "PageJob list"
  outcomes :: "PageResult list"

text \<open>
  The loop \<^verbatim>\<open>for i := 0; i < numWorkers; i++\<close> starts one worker for each \<open>i\<close>, and
  both channels are made with the capacity \<^verbatim>\<open>numWorkers*2\<close>, a product that wraps
  around.
\<close>

definition workerCount :: "fetchCall \<Rightarrow> nat" where
  "workerCount c = nat (sint (numWorkers c))"

definition chanCap :: "fetchCall \<Rightarrow> nat" where
  "chanCap c = nat (sint (numWorkers c * 2))"

definition initFetch :: "fetchCall \<Rightarrow> fetchState" where
  "initFetch c =
     \<lparr>ctxDone = False, producer = Sending 0, jobs = [], jobsClosed = False,
      workers = replicate (workerCount c) Ranging, results = [], resultsClosed = False,
      allResults = [], collectorDone = False, caller = WaitWorkers,
      sentJobs = [], requests = [], outcomes = []\<rparr>"

definition outcomeOf :: "string + item list \<Rightarrow> PageJob \<Rightarrow> PageResult" where
  "outcomeOf r job =
     (case r of
        Inl err \<Rightarrow> \<lparr>Items = [], Skip = PageJob.Skip job, Err = Some err\<rparr>
      | Inr items \<Rightarrow> \<lparr>Items = items, Skip = PageJob.Skip job, Err = None\<rparr>)"

text \<open>
  The steps of a call. Each is one goroutine passing one point of its code, and is
  possible only in the states given; where a \<^verbatim>\<open>select\<close> has two cases ready, each
  is a step. The context (line 47: the context of the HTTP request, with a timeout
  of five minutes) can become done at any moment. A send on a channel is possible
  while fewer elements wait in it than its capacity; the capacity is 0 only when no
  worker is started, and then nothing receives and nothing can be sent. A receive
  takes the element that has waited longest; a \<^verbatim>\<open>range\<close> ends when the channel is
  closed and empty.
\<close>

datatype fetchAction =
    CtxDone
  | ProducerSend | ProducerCtxDone | ProducerEnd
  | WorkerReceive nat | WorkerEnd nat | WorkerCtxDone nat | WorkerFetch nat
  | WorkerHandOff nat | WorkerDrop nat
  | CollectorReceive | CollectorEnd
  | CallerClose | CallerReturn

fun fetchStep :: "fetchCall \<Rightarrow> fetchAction \<Rightarrow> fetchState \<Rightarrow> fetchState option" where
  "fetchStep c CtxDone s = Some (s\<lparr>ctxDone := True\<rparr>)"
| "fetchStep c ProducerSend s =
     (case producer s of
        Sending skip \<Rightarrow>
          if skip <s totalCount c \<and> length (jobs s) < chanCap c then
            Some (s\<lparr>jobs := jobs s @ [\<lparr>PageJob.Skip = skip, Top = pageSize c\<rparr>],
                    sentJobs := sentJobs s @ [\<lparr>PageJob.Skip = skip, Top = pageSize c\<rparr>],
                    producer := Sending (skip + pageSize c)\<rparr>)
          else None
      | ProducerDone \<Rightarrow> None)"
| "fetchStep c ProducerCtxDone s =
     (case producer s of
        Sending skip \<Rightarrow>
          if skip <s totalCount c \<and> ctxDone s then
            Some (s\<lparr>jobsClosed := True, producer := ProducerDone\<rparr>)
          else None
      | ProducerDone \<Rightarrow> None)"
| "fetchStep c ProducerEnd s =
     (case producer s of
        Sending skip \<Rightarrow>
          if \<not> skip <s totalCount c then
            Some (s\<lparr>jobsClosed := True, producer := ProducerDone\<rparr>)
          else None
      | ProducerDone \<Rightarrow> None)"
| "fetchStep c (WorkerReceive i) s =
     (if i < length (workers s) \<and> workers s ! i = Ranging then
        (case jobs s of
           [] \<Rightarrow> None
         | job # rest \<Rightarrow> Some (s\<lparr>jobs := rest, workers := (workers s)[i := Selecting job]\<rparr>))
      else None)"
| "fetchStep c (WorkerEnd i) s =
     (if i < length (workers s) \<and> workers s ! i = Ranging \<and> jobs s = [] \<and> jobsClosed s then
        Some (s\<lparr>workers := (workers s)[i := WorkerDone]\<rparr>)
      else None)"
| "fetchStep c (WorkerCtxDone i) s =
     (if i < length (workers s) \<and> ctxDone s then
        (case workers s ! i of
           Selecting job \<Rightarrow> Some (s\<lparr>workers := (workers s)[i := WorkerDone]\<rparr>)
         | _ \<Rightarrow> None)
      else None)"
| "fetchStep c (WorkerFetch i) s =
     (if i < length (workers s) \<and> \<not> ctxDone s then
        (case workers s ! i of
           Selecting job \<Rightarrow>
             (let out = outcomeOf
                    (fetchItemsPage c (length (requests s)) (Top job) (PageJob.Skip job)) job
              in Some (s\<lparr>requests := requests s @ [job],
                         outcomes := outcomes s @ [out],
                         workers := (workers s)[i := Handing out]\<rparr>))
         | _ \<Rightarrow> None)
      else None)"
| "fetchStep c (WorkerHandOff i) s =
     (if i < length (workers s) \<and> length (results s) < chanCap c then
        (case workers s ! i of
           Handing out \<Rightarrow>
             Some (s\<lparr>results := results s @ [out], workers := (workers s)[i := Ranging]\<rparr>)
         | _ \<Rightarrow> None)
      else None)"
| "fetchStep c (WorkerDrop i) s =
     (if i < length (workers s) \<and> ctxDone s then
        (case workers s ! i of
           Handing out \<Rightarrow> Some (s\<lparr>workers := (workers s)[i := WorkerDone]\<rparr>)
         | _ \<Rightarrow> None)
      else None)"
| "fetchStep c CollectorReceive s =
     (if collectorDone s then None
      else case results s of
        [] \<Rightarrow> None
      | out # rest \<Rightarrow> Some (s\<lparr>results := rest, allResults := allResults s @ [out]\<rparr>))"
| "fetchStep c CollectorEnd s =
     (if \<not> collectorDone s \<and> results s = [] \<and> resultsClosed s then
        Some (s\<lparr>collectorDone := True\<rparr>)
      else None)"
| "fetchStep c CallerClose s =
     (if caller s = WaitWorkers \<and> list_all (\<lambda>w. w = WorkerDone) (workers s) then
        Some (s\<lparr>resultsClosed := True, caller := WaitCollector\<rparr>)
      else None)"
| "fetchStep c CallerReturn s =
     (if caller s = WaitCollector \<and> collectorDone s then
        Some (s\<lparr>caller := Returned (combineResults [] (allResults s))\<rparr>)
      else None)"

text \<open>A run: the steps of a schedule one after the other, from a state.\<close>

fun runFetch :: "fetchCall \<Rightarrow> fetchAction list \<Rightarrow> fetchState \<Rightarrow> fetchState option" where
  "runFetch c [] s = Some s"
| "runFetch c (a # as) s =
     (case fetchStep c a s of None \<Rightarrow> None | Some s' \<Rightarrow> runFetch c as s')"


text \<open>
  A run of the call under a schedule: \<^verbatim>\<open>make\<close> panics when the capacity is negative,
  otherwise the steps of the schedule are taken from the initial state. \<open>None\<close> says
  that the schedule is not a run of the call: \<^verbatim>\<open>make\<close> panics or some step is not
  possible where the schedule has it. The call has returned in the states whose
  caller is \<open>Returned\<close>.
\<close>

definition fetchAllItemsConcurrently ::
  "fetchCall \<Rightarrow> fetchAction list \<Rightarrow> fetchState option" where
  "fetchAllItemsConcurrently c sched =
     (if sint (numWorkers c * 2) < 0 then None else runFetch c sched (initFetch c))"

text \<open>
  What holds in every state of every run. How the goroutines are wired: a closed
  queue means that the producer is done, a closed outcome stream that every worker
  has returned, a collector that is done that the stream is closed and empty, and a
  caller that has returned that it returned the check of the collected outcomes.
\<close>

definition wired :: "fetchCall \<Rightarrow> fetchState \<Rightarrow> bool" where
  "wired c s \<longleftrightarrow>
     length (workers s) = workerCount c \<and>
     (jobsClosed s \<longleftrightarrow> producer s = ProducerDone) \<and>
     (resultsClosed s \<longrightarrow> list_all (\<lambda>w. w = WorkerDone) (workers s)) \<and>
     (caller s \<noteq> WaitWorkers \<longrightarrow> resultsClosed s) \<and>
     (collectorDone s \<longrightarrow> resultsClosed s \<and> results s = []) \<and>
     (\<forall>v. caller s = Returned v \<longrightarrow>
        collectorDone s \<and> v = combineResults [] (allResults s))"

text \<open>
  Where the outcomes are: an outcome that a worker holds, that waits in the stream
  or that is collected was produced by a request; and as long as the context is not
  done, every outcome produced is in one of these places.
\<close>

definition outcomesKept :: "fetchState \<Rightarrow> bool" where
  "outcomesKept s \<longleftrightarrow>
     (\<forall>r. r \<in> set (results s) \<or> r \<in> set (allResults s) \<or> Handing r \<in> set (workers s) \<longrightarrow>
        r \<in> set (outcomes s)) \<and>
     (\<not> ctxDone s \<longrightarrow>
        (\<forall>r\<in>set (outcomes s).
           r \<in> set (results s) \<or> r \<in> set (allResults s) \<or> Handing r \<in> set (workers s))) \<and>
     map PageResult.Skip (outcomes s) = map PageJob.Skip (requests s)"

text \<open>
  Where the jobs are: the jobs sent are those of the first offsets, each below the
  total count, and the producer stands at the next offset or, when it is done, has
  seen the context done or an offset that is not below the total count; as long as
  the context is not done, every job sent waits in the queue, is held by a worker or
  was requested, and a worker that has returned has left the queue closed and empty.
\<close>

fun workerJob :: "workerPoint \<Rightarrow> PageJob multiset" where
  "workerJob (Selecting job) = {#job#}"
| "workerJob w = {#}"

definition heldJobs :: "workerPoint list \<Rightarrow> PageJob multiset" where
  "heldJobs ws = sum_list (map workerJob ws)"

definition jobAt :: "fetchCall \<Rightarrow> nat \<Rightarrow> PageJob" where
  "jobAt c i = \<lparr>PageJob.Skip = of_nat i * pageSize c, Top = pageSize c\<rparr>"

definition jobsKept :: "fetchCall \<Rightarrow> fetchState \<Rightarrow> bool" where
  "jobsKept c s \<longleftrightarrow>
     (\<exists>k. sentJobs s = map (jobAt c) [0..<k] \<and>
          (\<forall>i<k. of_nat i * pageSize c <s totalCount c) \<and>
          (case producer s of
             Sending skip \<Rightarrow> skip = of_nat k * pageSize c
           | ProducerDone \<Rightarrow> ctxDone s \<or> \<not> of_nat k * pageSize c <s totalCount c)) \<and>
     (\<not> ctxDone s \<longrightarrow>
        mset (sentJobs s) = mset (jobs s) + heldJobs (workers s) + mset (requests s)) \<and>
     (\<not> ctxDone s \<and> WorkerDone \<in> set (workers s) \<longrightarrow> jobsClosed s \<and> jobs s = [])"


text \<open>
  The number of page requests in the words of the specification,
  \<open>\<lceil>totalCount / pageSize\<rceil>\<close>, over the integers.
\<close>

definition pageCount_spec :: "fetchCall \<Rightarrow> nat" where
  "pageCount_spec c =
     nat ((sint (totalCount c) + sint (pageSize c) - 1) div sint (pageSize c))"

text \<open>
  The schedule that fetches the pages one after the other with the first worker and
  then lets every goroutine end, and the state it reaches after \<open>k\<close> pages.
\<close>

definition pageRound :: "fetchAction list" where
  "pageRound = [ProducerSend, WorkerReceive 0, WorkerFetch 0, WorkerHandOff 0, CollectorReceive]"

definition shutdown :: "fetchCall \<Rightarrow> fetchAction list" where
  "shutdown c =
     ProducerEnd # map WorkerEnd [0..<workerCount c] @ [CallerClose, CollectorEnd, CallerReturn]"

definition sequentialRun :: "fetchCall \<Rightarrow> fetchAction list" where
  "sequentialRun c = concat (replicate (pageCount_spec c) pageRound) @ shutdown c"

definition pageOutcome :: "fetchCall \<Rightarrow> nat \<Rightarrow> PageResult" where
  "pageOutcome c i =
     outcomeOf (fetchItemsPage c i (pageSize c) (of_nat i * pageSize c)) (jobAt c i)"

definition afterRounds :: "fetchCall \<Rightarrow> nat \<Rightarrow> fetchState" where
  "afterRounds c k =
     \<lparr>ctxDone = False, producer = Sending (of_nat k * pageSize c), jobs = [],
      jobsClosed = False, workers = replicate (workerCount c) Ranging, results = [],
      resultsClosed = False, allResults = map (pageOutcome c) [0..<k],
      collectorDone = False, caller = WaitWorkers, sentJobs = map (jobAt c) [0..<k],
      requests = map (jobAt c) [0..<k], outcomes = map (pageOutcome c) [0..<k]\<rparr>"

section \<open>Scenarios\<close>

definition namedItem :: "string \<Rightarrow> item" where
  "namedItem name = [runes ''ItemName'' \<mapsto> AString (runes name)]"

definition cafeLatte :: gostring where
  "cafeLatte = runes ''Caf'' @ [233] @ runes '' Latt'' @ [233]"

definition emptyStore :: Store where
  "emptyStore = \<lparr>rows = [], nextID = 1\<rparr>"

definition productA_oldHandle :: "Product list" where
  "productA_oldHandle =
     [\<lparr>Title = runes ''Product A'', Handle = runes ''old-handle-a'', ID = 1\<rparr>]"

text \<open>The data of \<^verbatim>\<open>Test_SyncService_CompareAndSync_MixedScenario\<close>.\<close>

definition mixedProducts :: "Product list" where
  "mixedProducts =
     [\<lparr>Title = runes ''Existing Product 1'', Handle = runes ''existing-product-1'', ID = 1\<rparr>,
      \<lparr>Title = runes ''Product To Update'', Handle = runes ''old-handle'', ID = 2\<rparr>]"

definition mixedItems :: "item list" where
  "mixedItems =
     [namedItem ''Existing Product 1'', namedItem ''Product To Update'',
      namedItem ''Brand New Product A'', namedItem ''Brand New Product B'']"


text \<open>Two titles with different keys and the same handle; a store with one product.\<close>

definition collidingItems :: "item list" where
  "collidingItems = [namedItem ''A B'', namedItem ''A_B'']"

definition storeA :: Store where
  "storeA =
     \<lparr>rows = [\<lparr>row_id = 1, row_title = runes ''Product A'',
                row_handle = Some (runes ''old-handle-a'')\<rparr>],
      nextID = 2\<rparr>"

definition itemsAB :: "item list" where
  "itemsAB = [namedItem ''Product A'', namedItem ''Product B'']"

text \<open>
  Two pages of which the second fails, fetched by one worker. In the first run the
  outcome of the failed page is handed to the collector. In the second the context
  becomes done while the worker holds that outcome, and the worker takes the branch
  of \<^verbatim>\<open>ctx.Done()\<close> of its second \<^verbatim>\<open>select\<close>.
\<close>

definition failingPage :: "nat \<Rightarrow> goint \<Rightarrow> goint \<Rightarrow> string + item list" where
  "failingPage n limit skip =
     (if sint skip = 20 then Inl ''unexpected status code: 500'' else Inr [namedItem ''Product A''])"

definition twoPageCall :: fetchCall where
  "twoPageCall =
     \<lparr>fetchItemsPage = failingPage, totalCount = 40, pageSize = 20, numWorkers = 1\<rparr>"

definition collectedFailureRun :: "fetchAction list" where
  "collectedFailureRun =
     [ProducerSend, ProducerSend, ProducerEnd,
      WorkerReceive 0, WorkerFetch 0, WorkerHandOff 0, CollectorReceive,
      WorkerReceive 0, WorkerFetch 0, WorkerHandOff 0, WorkerEnd 0, CollectorReceive,
      CallerClose, CollectorEnd, CallerReturn]"

definition droppedFailureRun :: "fetchAction list" where
  "droppedFailureRun =
     [ProducerSend, ProducerSend, ProducerEnd,
      WorkerReceive 0, WorkerFetch 0, WorkerHandOff 0, CollectorReceive,
      WorkerReceive 0, WorkerFetch 0, CtxDone, WorkerDrop 0,
      CallerClose, CollectorEnd, CallerReturn]"

text \<open>
  47 records in pages of 20, fetched by two workers that overtake each other; the same
  call with a context that is done before the first job is sent; and a total count and
  a page size for which the offset counter wraps around.
\<close>

definition emptyPage :: "nat \<Rightarrow> goint \<Rightarrow> goint \<Rightarrow> string + item list" where
  "emptyPage n limit skip = Inr []"

definition call47 :: fetchCall where
  "call47 = \<lparr>fetchItemsPage = emptyPage, totalCount = 47, pageSize = 20, numWorkers = 2\<rparr>"

definition twoWorkerRun :: "fetchAction list" where
  "twoWorkerRun =
     [ProducerSend, ProducerSend, WorkerReceive 0, WorkerReceive (Suc 0), ProducerSend,
      ProducerEnd, WorkerFetch (Suc 0), WorkerFetch 0, WorkerHandOff (Suc 0),
      WorkerReceive (Suc 0), WorkerHandOff 0, WorkerEnd 0, WorkerFetch (Suc 0),
      CollectorReceive, WorkerHandOff (Suc 0), CollectorReceive, CollectorReceive,
      WorkerEnd (Suc 0), CallerClose, CollectorEnd, CallerReturn]"

definition cancelledRun :: "fetchAction list" where
  "cancelledRun =
     [CtxDone, ProducerCtxDone, WorkerEnd 0, WorkerEnd (Suc 0),
      CallerClose, CollectorEnd, CallerReturn]"

definition wrapCall :: fetchCall where
  "wrapCall =
     \<lparr>fetchItemsPage = emptyPage, totalCount = 9223372036854775807,
      pageSize = 4611686018427387904, numWorkers = 1\<rparr>"

definition wrapRun :: "fetchAction list" where
  "wrapRun = pageRound @ pageRound @ pageRound"

section \<open>Properties of the key normalizer\<close>

lemma ReplaceAll_single:
  "ReplaceAll s [a] [b] = map (\<lambda>r. if r = a then b else r) s"
proof (induction s)
  case Nil
  show ?case by simp
next
  case (Cons x xs)
  show ?case
  proof (cases "x = a")
    case True
    then show ?thesis using Cons by simp
  next
    case False
    then show ?thesis using Cons by simp
  qed
qed

lemma writeRunes_filter: "writeRunes b h = b @ filter keepRune h"
  unfolding writeRunes_def by (induction h arbitrary: b) simp_all

lemma keepRune_set: "keepRune r \<longleftrightarrow> r \<in> {97..122} \<union> {48..57} \<union> {45}"
  by (auto simp: keepRune_def)

lemma keepRune_eq: "keepRune = (\<lambda>r. r \<in> {97..122} \<union> {48..57} \<union> {45})"
  by (rule ext) (rule keepRune_set)

lemma generateHandle_filter_map:
  "generateHandle lw t =
   filter keepRune (map (\<lambda>r. if r = 32 \<or> r = 95 then 45 else r) (map lw t))"
proof -
  have "generateHandle lw t =
        filter keepRune (map (\<lambda>r. if r = 95 then 45 else r)
          (map (\<lambda>r. if r = 32 then 45 else r) (map lw t)))"
    by (simp only: generateHandle_def Let_def ToLower_def ReplaceAll_single writeRunes_filter
        append_Nil)
  also have "\<dots> = filter keepRune (map (\<lambda>r. if r = 32 \<or> r = 95 then 45 else r) (map lw t))"
    by (induction t) simp_all
  finally show ?thesis .
qed

text \<open>
  C8. For every title, \<open>generateHandle\<close> is the reference definition (lowercase,
  spaces and underscores to hyphens, every other character than a lowercase ASCII
  letter, a digit or a hyphen deleted, hyphen runs kept); so the handle has only
  such characters; and the handle of "Caf\'e Latt\'e" is "caf-latt".
\<close>

theorem C8_generateHandle_reference:
  "generateHandle lw t = DeriveHandle_spec lw t \<and>
   set (generateHandle lw t) \<subseteq> {97..122} \<union> {48..57} \<union> {45} \<and>
   generateHandle toLowerLatin1 cafeLatte = runes ''caf-latt''"
proof (intro conjI)
  show eq: "generateHandle lw t = DeriveHandle_spec lw t"
    by (simp only: generateHandle_filter_map DeriveHandle_spec_def keepRune_eq)
  show "set (generateHandle lw t) \<subseteq> {97..122} \<union> {48..57} \<union> {45}"
    unfolding eq DeriveHandle_spec_def by auto
  show "generateHandle toLowerLatin1 cafeLatte = runes ''caf-latt''"
    by (simp add: generateHandle_filter_map keepRune_def cafeLatte_def runes_def
        toLowerLatin1_def)
qed

theorem C8_generateHandle_reference_witness:
  "generateHandle toLowerLatin1 (runes ''Product   Multiple_Spaces'') =
     runes ''product---multiple-spaces'' \<and>
   DeriveHandle_spec toLowerLatin1 (runes ''Product   Multiple_Spaces'') =
     runes ''product---multiple-spaces''"
  using C8_generateHandle_reference [of toLowerLatin1 "runes ''Product   Multiple_Spaces''"]
  by (simp add: DeriveHandle_spec_def runes_def toLowerLatin1_def)

section \<open>Properties of the classification loop\<close>

lemma processItem_invalid:
  "\<not> validItem i \<Longrightarrow>
   processItem lw m st i =
     st\<lparr>result := (result st)\<lparr>Errors := Errors (result st) @
        [''Invalid or missing ItemName in external item'']\<rparr>\<rparr>"
  by (auto simp: processItem_def validItem_def split: prod.splits)

lemma processItem_create:
  "validItem i \<Longrightarrow> m (normalizeTitle lw (fst (itemName_of i))) = None \<Longrightarrow>
   processItem lw m st i =
     st\<lparr>itemsToCreate := itemsToCreate st @
        [\<lparr>Title = fst (itemName_of i), Handle = generateHandle lw (fst (itemName_of i))\<rparr>]\<rparr>"
  by (auto simp: processItem_def validItem_def Let_def split: prod.splits)

lemma processItem_unchanged:
  "validItem i \<Longrightarrow> m (normalizeTitle lw (fst (itemName_of i))) = Some p \<Longrightarrow>
   Title p = fst (itemName_of i) \<Longrightarrow> Handle p = generateHandle lw (fst (itemName_of i)) \<Longrightarrow>
   processItem lw m st i =
     st\<lparr>result := (result st)\<lparr>Unchanged := Unchanged (result st) + 1\<rparr>\<rparr>"
  by (auto simp: processItem_def validItem_def Let_def split: prod.splits)


lemma validItem_iff:
  "validItem i \<longleftrightarrow> (\<exists>s. i (runes ''ItemName'') = Some (AString s) \<and> s \<noteq> [])"
  by (auto simp: validItem_def itemName_of_def split: option.splits iface.splits)


lemma processItem_itemsToCreate:
  "itemsToCreate (processItem lw m st i) =
   itemsToCreate st @
     (if validItem i \<and> m (normalizeTitle lw (fst (itemName_of i))) = None
      then [\<lparr>Title = fst (itemName_of i), Handle = generateHandle lw (fst (itemName_of i))\<rparr>]
      else [])"
  by (auto simp: processItem_def validItem_def Let_def split: prod.splits option.splits)

lemma processItem_itemsToUpdate:
  "itemsToUpdate (processItem lw m st i) =
   itemsToUpdate st @
     (if validItem i \<and> (\<exists>p. m (normalizeTitle lw (fst (itemName_of i))) = Some p \<and>
            (Title p \<noteq> fst (itemName_of i) \<or>
             Handle p \<noteq> generateHandle lw (fst (itemName_of i))))
      then [\<lparr>Title = fst (itemName_of i), Handle = generateHandle lw (fst (itemName_of i)),
             ID = ID (the (m (normalizeTitle lw (fst (itemName_of i)))))\<rparr>]
      else [])"
  by (auto simp: processItem_def validItem_def Let_def split: prod.splits option.splits)

lemma processItem_Unchanged:
  "Unchanged (result (processItem lw m st i)) =
   Unchanged (result st) +
     (if validItem i \<and> (\<exists>p. m (normalizeTitle lw (fst (itemName_of i))) = Some p \<and>
            Title p = fst (itemName_of i) \<and>
            Handle p = generateHandle lw (fst (itemName_of i)))
      then 1 else 0)"
  by (auto simp: processItem_def validItem_def Let_def split: prod.splits option.splits)

lemma processItem_Errors:
  "Errors (result (processItem lw m st i)) =
   Errors (result st) @
     (if validItem i then [] else [''Invalid or missing ItemName in external item''])"
  by (auto simp: processItem_def validItem_def Let_def split: prod.splits option.splits)

lemma processItem_Created:
  "Created (result (processItem lw m st i)) = Created (result st)"
  by (auto simp: processItem_def validItem_def Let_def split: prod.splits option.splits)

lemma processItem_Updated:
  "Updated (result (processItem lw m st i)) = Updated (result st)"
  by (auto simp: processItem_def validItem_def Let_def split: prod.splits option.splits)

lemma processItems_Nil: "processItems lw m st [] = st"
  by (simp add: processItems_def)

lemma processItems_Cons:
  "processItems lw m st (i # is) = processItems lw m (processItem lw m st i) is"
  by (simp add: processItems_def)

lemma processItems_append:
  "processItems lw m st (xs @ ys) = processItems lw m (processItems lw m st xs) ys"
  by (simp add: processItems_def)

lemma processItems_itemsToCreate:
  "itemsToCreate (processItems lw m st items) =
   itemsToCreate st @
     map (\<lambda>t. \<lparr>Title = t, Handle = generateHandle lw t\<rparr>)
       (filter (\<lambda>t. m (normalizeTitle lw t) = None) (validTitles items))"
proof (induction items arbitrary: st)
  case Nil
  show ?case by (simp add: processItems_Nil validTitles_def)
next
  case (Cons i items)
  show ?case
    by (simp add: processItems_Cons Cons.IH processItem_itemsToCreate validTitles_def)
qed

lemma processItems_itemsToUpdate:
  "itemsToUpdate (processItems lw m st items) =
   itemsToUpdate st @
     map (\<lambda>t. \<lparr>Title = t, Handle = generateHandle lw t,
                ID = ID (the (m (normalizeTitle lw t)))\<rparr>)
       (filter (\<lambda>t. \<exists>p. m (normalizeTitle lw t) = Some p \<and>
                      (Title p \<noteq> t \<or> Handle p \<noteq> generateHandle lw t))
          (validTitles items))"
proof (induction items arbitrary: st)
  case Nil
  show ?case by (simp add: processItems_Nil validTitles_def)
next
  case (Cons i items)
  show ?case
    by (auto simp: processItems_Cons Cons.IH processItem_itemsToUpdate validTitles_def)
qed

lemma processItems_Unchanged:
  "Unchanged (result (processItems lw m st items)) =
   Unchanged (result st) +
     int (length (filter (\<lambda>t. \<exists>p. m (normalizeTitle lw t) = Some p \<and>
                      Title p = t \<and> Handle p = generateHandle lw t)
          (validTitles items)))"
proof (induction items arbitrary: st)
  case Nil
  show ?case by (simp add: processItems_Nil validTitles_def)
next
  case (Cons i items)
  show ?case
    by (auto simp: processItems_Cons Cons.IH processItem_Unchanged validTitles_def)
qed

lemma processItems_Errors:
  "Errors (result (processItems lw m st items)) =
   Errors (result st) @
     replicate (length (filter (\<lambda>i. \<not> validItem i) items))
       ''Invalid or missing ItemName in external item''"
proof (induction items arbitrary: st)
  case Nil
  show ?case by (simp add: processItems_Nil)
next
  case (Cons i items)
  show ?case
    by (simp add: processItems_Cons Cons.IH processItem_Errors replicate_app_Cons_same)
qed

lemma processItems_Created:
  "Created (result (processItems lw m st items)) = Created (result st)"
  by (induction items arbitrary: st) (simp_all add: processItems_Nil processItems_Cons processItem_Created)

lemma processItems_Updated:
  "Updated (result (processItems lw m st items)) = Updated (result st)"
  by (induction items arbitrary: st) (simp_all add: processItems_Nil processItems_Cons processItem_Updated)

lemma validTitles_append: "validTitles (xs @ ys) = validTitles xs @ validTitles ys"
  by (simp add: validTitles_def)

lemma validTitles_Cons:
  "validTitles (i # is) = (if validItem i then fst (itemName_of i) # validTitles is else validTitles is)"
  by (simp add: validTitles_def)

lemma classify_itemsToCreate:
  "itemsToCreate (classify lw ps items) =
   map (\<lambda>t. \<lparr>Title = t, Handle = generateHandle lw t\<rparr>)
     (filter (\<lambda>t. buildProductMap lw ps (normalizeTitle lw t) = None) (validTitles items))"
  by (simp add: classify_def processItems_itemsToCreate initState_def)

lemma dispatch_Created:
  "Created (dispatch (classify lw ps items)) = int (length (itemsToCreate (classify lw ps items)))"
  by (simp add: dispatch_def Let_def classify_def processItems_Created initState_def)

lemma classify_itemsToUpdate:
  "itemsToUpdate (classify lw ps items) =
   map (\<lambda>t. \<lparr>Title = t, Handle = generateHandle lw t,
              ID = ID (the (buildProductMap lw ps (normalizeTitle lw t)))\<rparr>)
     (filter (\<lambda>t. \<exists>p. buildProductMap lw ps (normalizeTitle lw t) = Some p \<and>
                    (Title p \<noteq> t \<or> Handle p \<noteq> generateHandle lw t))
        (validTitles items))"
  by (simp add: classify_def processItems_itemsToUpdate initState_def)

lemma classify_Unchanged:
  "Unchanged (result (classify lw ps items)) =
   int (length (filter (\<lambda>t. \<exists>p. buildProductMap lw ps (normalizeTitle lw t) = Some p \<and>
                    Title p = t \<and> Handle p = generateHandle lw t)
        (validTitles items)))"
  by (simp add: classify_def processItems_Unchanged initState_def)

lemma dispatch_no_create:
  "itemsToCreate st = [] \<Longrightarrow> dispatch st = result st"
  by (simp add: dispatch_def)

lemma classify_Created_Updated:
  "Created (result (classify lw ps items)) = 0" "Updated (result (classify lw ps items)) = 0"
  by (simp_all add: classify_def processItems_Created processItems_Updated initState_def)

lemma dispatch_fields:
  "Created (dispatch st) =
     (if itemsToCreate st = [] then Created (result st) else int (length (itemsToCreate st)))"
  "Updated (dispatch st) = Updated (result st)"
  "Unchanged (dispatch st) = Unchanged (result st)"
  "Errors (dispatch st) = Errors (result st)"
  by (simp_all add: dispatch_def Let_def)

lemma dispatch_Errors_update:
  "dispatch (st\<lparr>result := (result st)\<lparr>Errors := e\<rparr>\<rparr>) = (dispatch st)\<lparr>Errors := e\<rparr>"
  by (simp add: dispatch_def Let_def)

lemma three_way_partition:
  "\<forall>x\<in>set xs. (A x \<or> B x \<or> C x) \<and> \<not> (A x \<and> B x) \<and> \<not> (A x \<and> C x) \<and> \<not> (B x \<and> C x) \<Longrightarrow>
   length (filter A xs) + length (filter B xs) + length (filter C xs) = length xs"
  by (induction xs) auto

lemma classify_partition:
  "length (itemsToCreate (classify lw ps items)) +
   length (itemsToUpdate (classify lw ps items)) +
   nat (Unchanged (result (classify lw ps items))) = length (validTitles items)"
proof -
  let ?m = "buildProductMap lw ps"
  let ?A = "\<lambda>t. ?m (normalizeTitle lw t) = None"
  let ?B = "\<lambda>t. \<exists>p. ?m (normalizeTitle lw t) = Some p \<and>
      (Title p \<noteq> t \<or> Handle p \<noteq> generateHandle lw t)"
  let ?C = "\<lambda>t. \<exists>p. ?m (normalizeTitle lw t) = Some p \<and>
      Title p = t \<and> Handle p = generateHandle lw t"
  have "\<forall>t\<in>set (validTitles items).
      (?A t \<or> ?B t \<or> ?C t) \<and> \<not> (?A t \<and> ?B t) \<and> \<not> (?A t \<and> ?C t) \<and> \<not> (?B t \<and> ?C t)"
    by auto
  from three_way_partition [of "validTitles items" ?A ?B ?C, OF this]
  show ?thesis
    by (simp add: classify_itemsToCreate classify_itemsToUpdate classify_Unchanged)
qed

lemma classify_skip_invalid:
  assumes inv: "\<not> validItem i"
  shows "classify lw ps (xs @ i # ys) =
        (classify lw ps (xs @ ys))
          \<lparr>result := (result (classify lw ps (xs @ ys)))
             \<lparr>Errors := Errors (result (classify lw ps (xs @ ys))) @
               [''Invalid or missing ItemName in external item'']\<rparr>\<rparr>"
proof -
  let ?msg = "''Invalid or missing ItemName in external item''"
  let ?m = "buildProductMap lw ps"
  let ?a = "processItems lw ?m initState (xs @ i # ys)"
  let ?b = "processItems lw ?m initState (xs @ ys)"
  from inv have vt: "validTitles (xs @ i # ys) = validTitles (xs @ ys)"
    by (simp add: validTitles_def)
  have c: "itemsToCreate ?a = itemsToCreate ?b"
    by (simp only: processItems_itemsToCreate vt)
  have u: "itemsToUpdate ?a = itemsToUpdate ?b"
    by (simp only: processItems_itemsToUpdate vt)
  have n: "Unchanged (result ?a) = Unchanged (result ?b)"
    by (simp only: processItems_Unchanged vt)
  have cr: "Created (result ?a) = Created (result ?b)"
    by (simp only: processItems_Created)
  have up: "Updated (result ?a) = Updated (result ?b)"
    by (simp only: processItems_Updated)
  have e: "Errors (result ?a) = Errors (result ?b) @ [?msg]"
    using inv by (simp add: processItems_Errors replicate_append_same)
  have r: "result ?a = (result ?b)\<lparr>Errors := Errors (result ?b) @ [?msg]\<rparr>"
    by (rule SyncResult.equality) (simp_all add: n cr up e)
  have "?a = ?b\<lparr>result := (result ?b)\<lparr>Errors := Errors (result ?b) @ [?msg]\<rparr>\<rparr>"
    by (rule SyncState.equality) (simp_all add: c u r)
  then show ?thesis
    by (simp only: classify_def)
qed

text \<open>The equations that evaluate a scenario.\<close>

lemmas scenario_defs = classify_def processItems_def processItem_def buildProductMap_def
  itemName_of_def namedItem_def initState_def normalizeTitle_def TrimSpace_def isSpace_def
  ToLower_def toLowerLatin1_def runes_def generateHandle_filter_map keepRune_def
  CompareAndSync_def dispatch_def Let_def validItem_def validTitles_def

section \<open>Properties of the sync engine\<close>


text \<open>
  C1. The claim: the returned \<open>updatedCount\<close> is the size of the update batch, and the
  persisted record (1, "Product A", "old-handle-a") with the remote record "Product A"
  gives one update with the handle "product-a". The code: the assignment of
  \<^verbatim>\<open>result.Updated\<close> is commented out, so every call that returns without error
  returns the count 0; at that input the update batch holds the one update, and the
  returned count is 0.
\<close>
theorem C1_update_count_not_recorded:
  "map_sum id Updated (CompareAndSync lw (Inr ps) items) = Inr 0 \<and>
   itemsToUpdate (classify toLowerLatin1 productA_oldHandle [namedItem ''Product A'']) =
     [\<lparr>Title = runes ''Product A'', Handle = runes ''product-a'', ID = 1\<rparr>] \<and>
   CompareAndSync toLowerLatin1 (Inr productA_oldHandle) [namedItem ''Product A''] =
     Inr \<lparr>Created = 0, Updated = 0, Unchanged = 0, Errors = []\<rparr>"
proof (intro conjI)
  show "map_sum id Updated (CompareAndSync lw (Inr ps) items) = Inr 0"
    by (simp add: CompareAndSync_def dispatch_fields classify_Created_Updated)
  show "itemsToUpdate (classify toLowerLatin1 productA_oldHandle [namedItem ''Product A'']) =
     [\<lparr>Title = runes ''Product A'', Handle = runes ''product-a'', ID = 1\<rparr>]"
    by (simp add: scenario_defs productA_oldHandle_def)
  show "CompareAndSync toLowerLatin1 (Inr productA_oldHandle) [namedItem ''Product A''] =
     Inr \<lparr>Created = 0, Updated = 0, Unchanged = 0, Errors = []\<rparr>"
    by (simp add: scenario_defs productA_oldHandle_def)
qed

text \<open>The batch has one element and the reported count is 0.\<close>
theorem C1_update_count_not_recorded_witness:
  "length (itemsToUpdate (classify toLowerLatin1 productA_oldHandle [namedItem ''Product A''])) = 1 \<and>
   map_sum id Updated
     (CompareAndSync toLowerLatin1 (Inr productA_oldHandle) [namedItem ''Product A'']) = Inr 0"
  using C1_update_count_not_recorded [of toLowerLatin1 productA_oldHandle "[namedItem ''Product A'']"]
  by simp

text \<open>
  C4. The claim: every valid remote record is counted in exactly one of
  \<open>createdCount\<close>, \<open>updatedCount\<close>, \<open>unchangedCount\<close>, so the three sum to the number
  of valid records. The code: the valid records are partitioned into the create batch,
  the update batch and the unchanged counter, but the size of the update batch is not
  written to a tally; the sum that is right is the one with the size of the update
  batch in the place of \<open>updatedCount\<close>. On the data of the repository's mixed scenario
  there are four valid records, one of them in the update batch, and the tallies are
  2, 0 and 1.
\<close>
theorem C4_tallies_miss_updates:
  "map_sum id
     (\<lambda>r. Created r + int (length (itemsToUpdate (classify lw ps items))) + Unchanged r)
     (CompareAndSync lw (Inr ps) items) = Inr (int (length (validTitles items))) \<and>
   CompareAndSync toLowerLatin1 (Inr mixedProducts) mixedItems =
     Inr \<lparr>Created = 2, Updated = 0, Unchanged = 1, Errors = []\<rparr> \<and>
   length (validTitles mixedItems) = 4 \<and>
   length (itemsToUpdate (classify toLowerLatin1 mixedProducts mixedItems)) = 1"
proof (intro conjI)
  have u: "0 \<le> Unchanged (result (classify lw ps items))"
    by (simp add: classify_Unchanged)
  have c: "Created (dispatch (classify lw ps items)) =
      int (length (itemsToCreate (classify lw ps items)))"
    by (rule dispatch_Created)
  from classify_partition [of lw ps items] u
  have "int (length (itemsToCreate (classify lw ps items))) +
      int (length (itemsToUpdate (classify lw ps items))) +
      Unchanged (result (classify lw ps items)) = int (length (validTitles items))"
    by linarith
  then show "map_sum id
     (\<lambda>r. Created r + int (length (itemsToUpdate (classify lw ps items))) + Unchanged r)
     (CompareAndSync lw (Inr ps) items) = Inr (int (length (validTitles items)))"
    by (simp add: CompareAndSync_def c dispatch_fields(3))
  show "CompareAndSync toLowerLatin1 (Inr mixedProducts) mixedItems =
     Inr \<lparr>Created = 2, Updated = 0, Unchanged = 1, Errors = []\<rparr>"
    by (simp add: scenario_defs mixedProducts_def mixedItems_def)
  show "length (validTitles mixedItems) = 4"
    by (simp add: scenario_defs mixedItems_def)
  show "length (itemsToUpdate (classify toLowerLatin1 mixedProducts mixedItems)) = 1"
    by (simp add: scenario_defs mixedProducts_def mixedItems_def)
qed

text \<open>The tallies sum to 3, the valid records are 4.\<close>
theorem C4_tallies_miss_updates_witness:
  "map_sum id (\<lambda>r. Created r + Updated r + Unchanged r)
     (CompareAndSync toLowerLatin1 (Inr mixedProducts) mixedItems) = Inr 3 \<and>
   int (length (validTitles mixedItems)) = 4"
  using C4_tallies_miss_updates [of toLowerLatin1 mixedProducts mixedItems] by simp

lemma buildProductMap_snoc:
  "buildProductMap lw (ps @ [p]) = (buildProductMap lw ps)(normalizeTitle lw (Title p) \<mapsto> p)"
  by (simp add: buildProductMap_def)

lemma buildProductMap_last:
  "buildProductMap lw ps k =
   (if filter (\<lambda>p. normalizeTitle lw (Title p) = k) ps = [] then None
    else Some (last (filter (\<lambda>p. normalizeTitle lw (Title p) = k) ps)))"
proof (induction ps rule: rev_induct)
  case Nil
  show ?case by (simp add: buildProductMap_def)
next
  case (snoc p ps)
  show ?case
    using snoc.IH by (simp add: buildProductMap_snoc)
qed



text \<open>
  C5. For a valid remote record: when its key is absent from the table of persisted
  records, the record is appended to the create batch with its title and handle; when
  the key is bound to a record with exactly this title and exactly the computed
  handle, \<open>unchangedCount\<close> goes up by one. With an empty store and the remote
  records "Product A" and "Product B" the outcome is 2 created, 0 updated, 0 unchanged.
\<close>
theorem C5_classification_rules:
  "(validItem i \<and> buildProductMap lw ps (normalizeTitle lw (fst (itemName_of i))) = None \<longrightarrow>
      processItem lw (buildProductMap lw ps) st i =
        st\<lparr>itemsToCreate := itemsToCreate st @
          [\<lparr>Title = fst (itemName_of i),
            Handle = generateHandle lw (fst (itemName_of i))\<rparr>]\<rparr>) \<and>
   (validItem i \<and> buildProductMap lw ps (normalizeTitle lw (fst (itemName_of i))) = Some p \<and>
    Title p = fst (itemName_of i) \<and> Handle p = generateHandle lw (fst (itemName_of i)) \<longrightarrow>
      processItem lw (buildProductMap lw ps) st i =
        st\<lparr>result := (result st)\<lparr>Unchanged := Unchanged (result st) + 1\<rparr>\<rparr>) \<and>
   CompareAndSync toLowerLatin1 (Inr []) [namedItem ''Product A'', namedItem ''Product B''] =
     Inr \<lparr>Created = 2, Updated = 0, Unchanged = 0, Errors = []\<rparr>"
proof (intro conjI impI)
  assume "validItem i \<and> buildProductMap lw ps (normalizeTitle lw (fst (itemName_of i))) = None"
  then show "processItem lw (buildProductMap lw ps) st i =
        st\<lparr>itemsToCreate := itemsToCreate st @
          [\<lparr>Title = fst (itemName_of i),
            Handle = generateHandle lw (fst (itemName_of i))\<rparr>]\<rparr>"
    by (simp add: processItem_create)
next
  assume "validItem i \<and> buildProductMap lw ps (normalizeTitle lw (fst (itemName_of i))) = Some p \<and>
    Title p = fst (itemName_of i) \<and> Handle p = generateHandle lw (fst (itemName_of i))"
  then show "processItem lw (buildProductMap lw ps) st i =
        st\<lparr>result := (result st)\<lparr>Unchanged := Unchanged (result st) + 1\<rparr>\<rparr>"
    using processItem_unchanged [of i "buildProductMap lw ps" lw p st] by simp
next
  show "CompareAndSync toLowerLatin1 (Inr []) [namedItem ''Product A'', namedItem ''Product B''] =
     Inr \<lparr>Created = 2, Updated = 0, Unchanged = 0, Errors = []\<rparr>"
    by (simp add: scenario_defs)
qed

text \<open>Both rules at concrete records: a new one, and one that is persisted as it is.\<close>
theorem C5_classification_rules_witness:
  "itemsToCreate (processItem toLowerLatin1 (buildProductMap toLowerLatin1 [])
       initState (namedItem ''Product A'')) =
     [\<lparr>Title = runes ''Product A'', Handle = runes ''product-a''\<rparr>] \<and>
   result (processItem toLowerLatin1 (buildProductMap toLowerLatin1 mixedProducts)
       initState (namedItem ''Existing Product 1'')) =
     \<lparr>Created = 0, Updated = 0, Unchanged = 1, Errors = []\<rparr>"
proof -
  have new: "validItem (namedItem ''Product A'') \<and>
      buildProductMap toLowerLatin1 []
        (normalizeTitle toLowerLatin1 (fst (itemName_of (namedItem ''Product A'')))) = None"
    by (simp add: scenario_defs)
  have same: "validItem (namedItem ''Existing Product 1'') \<and>
      buildProductMap toLowerLatin1 mixedProducts
        (normalizeTitle toLowerLatin1 (fst (itemName_of (namedItem ''Existing Product 1'')))) =
        Some \<lparr>Title = runes ''Existing Product 1'', Handle = runes ''existing-product-1'', ID = 1\<rparr> \<and>
      Title \<lparr>Title = runes ''Existing Product 1'', Handle = runes ''existing-product-1'', ID = 1\<rparr> =
        fst (itemName_of (namedItem ''Existing Product 1'')) \<and>
      Handle \<lparr>Title = runes ''Existing Product 1'', Handle = runes ''existing-product-1'', ID = 1\<rparr> =
        generateHandle toLowerLatin1 (fst (itemName_of (namedItem ''Existing Product 1'')))"
    by (simp add: scenario_defs mixedProducts_def)
  from C5_classification_rules [of "namedItem ''Product A''" toLowerLatin1 "[]" initState]
  have a: "processItem toLowerLatin1 (buildProductMap toLowerLatin1 []) initState
        (namedItem ''Product A'') =
      initState\<lparr>itemsToCreate := itemsToCreate initState @
          [\<lparr>Title = fst (itemName_of (namedItem ''Product A'')),
            Handle = generateHandle toLowerLatin1 (fst (itemName_of (namedItem ''Product A'')))\<rparr>]\<rparr>"
    using new by blast
  from C5_classification_rules [of "namedItem ''Existing Product 1''" toLowerLatin1
      mixedProducts initState "\<lparr>Title = runes ''Existing Product 1'',
        Handle = runes ''existing-product-1'', ID = 1\<rparr>"]
  have b: "processItem toLowerLatin1 (buildProductMap toLowerLatin1 mixedProducts) initState
        (namedItem ''Existing Product 1'') =
      initState\<lparr>result := (result initState)\<lparr>Unchanged := Unchanged (result initState) + 1\<rparr>\<rparr>"
    using same by blast
  show ?thesis
    unfolding a b by (simp add: scenario_defs)
qed

text \<open>
  C6. A remote record is invalid exactly when its display name is absent, is not a
  string or is the empty string; nothing is trimmed, so a name of one space is valid.
  An invalid record appends one validation error and changes nothing else: neither
  the three counters nor the two batches. The pass goes on: the state after the whole
  list is the state of the pass without the record, with that one error more, and so
  is the outcome that is returned.
\<close>
theorem C6_invalid_record_skipped:
  "(validItem i \<longleftrightarrow> (\<exists>s. i (runes ''ItemName'') = Some (AString s) \<and> s \<noteq> [])) \<and>
   (\<not> validItem i \<longrightarrow>
      processItem lw m st i =
        st\<lparr>result := (result st)\<lparr>Errors := Errors (result st) @
          [''Invalid or missing ItemName in external item'']\<rparr>\<rparr> \<and>
      classify lw ps (xs @ i # ys) =
        (classify lw ps (xs @ ys))
          \<lparr>result := (result (classify lw ps (xs @ ys)))
             \<lparr>Errors := Errors (result (classify lw ps (xs @ ys))) @
               [''Invalid or missing ItemName in external item'']\<rparr>\<rparr> \<and>
      CompareAndSync lw (Inr ps) (xs @ i # ys) =
        map_sum id
          (\<lambda>r. r\<lparr>Errors := Errors r @ [''Invalid or missing ItemName in external item'']\<rparr>)
          (CompareAndSync lw (Inr ps) (xs @ ys))) \<and>
   CompareAndSync toLowerLatin1 (Inr []) [namedItem []] =
     Inr \<lparr>Created = 0, Updated = 0, Unchanged = 0,
          Errors = [''Invalid or missing ItemName in external item'']\<rparr> \<and>
   CompareAndSync toLowerLatin1 (Inr []) [namedItem '' ''] =
     Inr \<lparr>Created = 1, Updated = 0, Unchanged = 0, Errors = []\<rparr>"
proof (intro conjI impI)
  show "validItem i \<longleftrightarrow> (\<exists>s. i (runes ''ItemName'') = Some (AString s) \<and> s \<noteq> [])"
    by (rule validItem_iff)
next
  assume "\<not> validItem i"
  then show "processItem lw m st i =
        st\<lparr>result := (result st)\<lparr>Errors := Errors (result st) @
          [''Invalid or missing ItemName in external item'']\<rparr>\<rparr>"
    by (rule processItem_invalid)
next
  assume "\<not> validItem i"
  then show "classify lw ps (xs @ i # ys) =
        (classify lw ps (xs @ ys))
          \<lparr>result := (result (classify lw ps (xs @ ys)))
             \<lparr>Errors := Errors (result (classify lw ps (xs @ ys))) @
               [''Invalid or missing ItemName in external item'']\<rparr>\<rparr>"
    by (rule classify_skip_invalid)
next
  assume "\<not> validItem i"
  from classify_skip_invalid [OF this, of lw ps xs ys]
  show "CompareAndSync lw (Inr ps) (xs @ i # ys) =
        map_sum id
          (\<lambda>r. r\<lparr>Errors := Errors r @ [''Invalid or missing ItemName in external item'']\<rparr>)
          (CompareAndSync lw (Inr ps) (xs @ ys))"
    by (simp add: CompareAndSync_def dispatch_Errors_update dispatch_fields)
next
  show "CompareAndSync toLowerLatin1 (Inr []) [namedItem []] =
     Inr \<lparr>Created = 0, Updated = 0, Unchanged = 0,
          Errors = [''Invalid or missing ItemName in external item'']\<rparr>"
    by (simp add: scenario_defs)
next
  show "CompareAndSync toLowerLatin1 (Inr []) [namedItem '' ''] =
     Inr \<lparr>Created = 1, Updated = 0, Unchanged = 0, Errors = []\<rparr>"
    by (simp add: scenario_defs)
qed

text \<open>
  A display name that is a number, and a record with no display name, are invalid;
  the records around the invalid one are classified as usual.
\<close>
theorem C6_invalid_record_skipped_witness:
  "\<not> validItem [runes ''ItemName'' \<mapsto> AInt 123] \<and>
   \<not> validItem [runes ''ItemCode'' \<mapsto> AString (runes ''B001'')] \<and>
   classify toLowerLatin1 [] [namedItem ''Valid Product'',
       [runes ''ItemName'' \<mapsto> AInt 123], namedItem ''Other''] =
     \<lparr>result = \<lparr>Created = 0, Updated = 0, Unchanged = 0,
         Errors = [''Invalid or missing ItemName in external item'']\<rparr>,
      itemsToCreate = [\<lparr>Title = runes ''Valid Product'', Handle = runes ''valid-product''\<rparr>,
                       \<lparr>Title = runes ''Other'', Handle = runes ''other''\<rparr>],
      itemsToUpdate = []\<rparr>"
proof -
  have inv: "\<not> validItem [runes ''ItemName'' \<mapsto> AInt 123]"
    by (simp add: validItem_def itemName_of_def)
  have inv2: "\<not> validItem [runes ''ItemCode'' \<mapsto> AString (runes ''B001'')]"
    by (simp add: validItem_def itemName_of_def runes_def)
  from C6_invalid_record_skipped [of "[runes ''ItemName'' \<mapsto> AInt 123]" toLowerLatin1
      Map.empty initState "[]" "[namedItem ''Valid Product'']" "[namedItem ''Other'']"] inv
  have "classify toLowerLatin1 [] ([namedItem ''Valid Product''] @
          [runes ''ItemName'' \<mapsto> AInt 123] # [namedItem ''Other'']) =
      (classify toLowerLatin1 [] ([namedItem ''Valid Product''] @ [namedItem ''Other'']))
        \<lparr>result := (result (classify toLowerLatin1 []
              ([namedItem ''Valid Product''] @ [namedItem ''Other''])))
           \<lparr>Errors := Errors (result (classify toLowerLatin1 []
              ([namedItem ''Valid Product''] @ [namedItem ''Other'']))) @
             [''Invalid or missing ItemName in external item'']\<rparr>\<rparr>"
    by blast
  then show ?thesis
    using inv inv2 by (simp add: scenario_defs)
qed

section \<open>Properties of the paged fetcher\<close>


lemma combineResults_failure:
  "\<exists>r\<in>set rs. Err r \<noteq> None \<Longrightarrow>
   \<exists>r\<in>set rs. \<exists>e. Err r = Some e \<and>
     combineResults acc rs = Inl (ErrorFetchingPage (PageResult.Skip r) e)"
proof (induction rs arbitrary: acc)
  case Nil
  then show ?case by simp
next
  case (Cons r rs)
  show ?case
  proof (cases "Err r")
    case None
    with Cons.prems have "\<exists>r\<in>set rs. Err r \<noteq> None" by auto
    from Cons.IH [OF this, of "acc @ Items r"] None show ?thesis by auto
  next
    case (Some e)
    then show ?thesis by auto
  qed
qed

lemma combineResults_success:
  "\<forall>r\<in>set rs. Err r = None \<Longrightarrow>
   combineResults acc rs = Inr (acc @ concat (map Items rs))"
  by (induction rs arbitrary: acc) simp_all

lemma sint_of_nat_mult_no_wrap:
  fixes p :: goint
  assumes "0 \<le> int k * sint p" "int k * sint p < 2 ^ 63"
  shows "sint (of_nat k * p) = int k * sint p"
proof -
  have "of_nat k * p = (word_of_int (int k * sint p) :: goint)"
    by simp
  then have "sint (of_nat k * p) = signed_take_bit 63 (int k * sint p)"
    by (simp only: sint_sbintrunc') simp
  also have "\<dots> = int k * sint p"
    using assms by (intro signed_take_bit_int_eq_self) auto
  finally show ?thesis .
qed

lemma ceil_bounds:
  fixes T P :: int
  assumes "0 \<le> T" "0 < P"
  shows "T \<le> ((T + P - 1) div P) * P" and "((T + P - 1) div P - 1) * P < T"
    and "0 \<le> (T + P - 1) div P"
proof -
  have e: "(T + P - 1) div P * P + (T + P - 1) mod P = T + P - 1"
    by simp
  have m: "0 \<le> (T + P - 1) mod P" "(T + P - 1) mod P < P"
    using assms by simp_all
  show "T \<le> ((T + P - 1) div P) * P"
    using e m by linarith
  have "((T + P - 1) div P - 1) * P = (T + P - 1) div P * P - P"
    by (simp add: algebra_simps)
  then show "((T + P - 1) div P - 1) * P < T"
    using e m by linarith
  show "0 \<le> (T + P - 1) div P"
    using assms by (simp add: pos_imp_zdiv_nonneg_iff)
qed

lemma below_ceil_iff:
  fixes T P :: int
  assumes "0 \<le> T" "0 < P"
  shows "k < nat ((T + P - 1) div P) \<longleftrightarrow> int k * P < T"
proof
  let ?n = "(T + P - 1) div P"
  assume "k < nat ?n"
  then have "int k \<le> ?n - 1" by linarith
  then have "int k * P \<le> (?n - 1) * P"
    using assms(2) by (simp add: mult_right_mono)
  with ceil_bounds(2) [OF assms] show "int k * P < T" by linarith
next
  let ?n = "(T + P - 1) div P"
  assume a: "int k * P < T"
  show "k < nat ?n"
  proof (rule ccontr)
    assume "\<not> k < nat ?n"
    then have "?n \<le> int k" using ceil_bounds(3) [OF assms] by linarith
    then have "?n * P \<le> int k * P"
      using assms(2) by (simp add: mult_right_mono)
    with ceil_bounds(1) [OF assms] a show False by linarith
  qed
qed

lemma wired_init: "wired c (initFetch c)"
  by (simp add: wired_def initFetch_def)

lemma wired_step:
  assumes "fetchStep c a s = Some s'" "wired c s"
  shows "wired c s'"
proof (cases a)
  case CtxDone
  with assms show ?thesis by (auto simp: wired_def)
next
  case ProducerSend
  with assms show ?thesis
    by (auto simp: wired_def split: producerPoint.splits if_splits)
next
  case ProducerCtxDone
  with assms show ?thesis
    by (auto simp: wired_def split: producerPoint.splits if_splits)
next
  case ProducerEnd
  with assms show ?thesis
    by (auto simp: wired_def split: producerPoint.splits if_splits)
next
  case (WorkerReceive i)
  with assms show ?thesis
    by (auto simp: wired_def list_all_length split: list.splits if_splits)
next
  case (WorkerEnd i)
  with assms show ?thesis
    by (auto simp: wired_def list_all_length nth_list_update split: if_splits)
next
  case (WorkerCtxDone i)
  with assms show ?thesis
    by (auto simp: wired_def list_all_length nth_list_update split: workerPoint.splits if_splits)
next
  case (WorkerFetch i)
  with assms show ?thesis
    by (auto simp: wired_def list_all_length Let_def split: workerPoint.splits if_splits)
next
  case (WorkerHandOff i)
  with assms show ?thesis
    by (auto simp: wired_def list_all_length split: workerPoint.splits if_splits)
next
  case (WorkerDrop i)
  with assms show ?thesis
    by (auto simp: wired_def list_all_length nth_list_update split: workerPoint.splits if_splits)
next
  case CollectorReceive
  with assms show ?thesis
    by (auto simp: wired_def split: list.splits if_splits)
next
  case CollectorEnd
  with assms show ?thesis
    by (auto simp: wired_def split: if_splits)
next
  case CallerClose
  with assms show ?thesis
    by (auto simp: wired_def split: if_splits)
next
  case CallerReturn
  with assms show ?thesis
    by (auto simp: wired_def split: if_splits)
qed

lemma set_update_D: "x \<in> set (ws[i := y]) \<Longrightarrow> x = y \<or> x \<in> set ws"
  using set_update_subset_insert [of ws i y] by auto

lemma set_update_keep:
  assumes "x \<in> set ws" "x \<noteq> ws ! i"
  shows "x \<in> set (ws[i := y])"
proof -
  from assms(1) obtain j where j: "j < length ws" "ws ! j = x"
    by (auto simp: in_set_conv_nth)
  with assms(2) have "j \<noteq> i" by auto
  with j have "ws[i := y] ! j = x" "j < length (ws[i := y])" by simp_all
  then show ?thesis by (metis nth_mem)
qed

lemma outcomesKept_init: "outcomesKept (initFetch c)"
  by (simp add: outcomesKept_def initFetch_def)

lemma outcomesKept_step:
  assumes st: "fetchStep c a s = Some s'" and k: "outcomesKept s"
  shows "outcomesKept s'"
proof (cases a)
  case CtxDone
  with st k show ?thesis by (auto simp: outcomesKept_def)
next
  case ProducerSend
  with st k show ?thesis
    by (auto simp: outcomesKept_def split: producerPoint.splits if_splits)
next
  case ProducerCtxDone
  with st k show ?thesis
    by (auto simp: outcomesKept_def split: producerPoint.splits if_splits)
next
  case ProducerEnd
  with st k show ?thesis
    by (auto simp: outcomesKept_def split: producerPoint.splits if_splits)
next
  case (WorkerReceive i)
  with st obtain job rest where g: "i < length (workers s)" "workers s ! i = Ranging"
      "jobs s = job # rest"
    and s': "s' = s\<lparr>jobs := rest, workers := (workers s)[i := Selecting job]\<rparr>"
    by (auto split: list.splits if_splits)
  have "Handing r \<in> set ((workers s)[i := Selecting job]) \<longleftrightarrow> Handing r \<in> set (workers s)" for r
    using g(2) set_update_D [of "Handing r" "workers s" i "Selecting job"]
      set_update_keep [of "Handing r" "workers s" i "Selecting job"] by auto
  with k show ?thesis by (simp add: outcomesKept_def s')
next
  case (WorkerEnd i)
  with st have g: "i < length (workers s)" "workers s ! i = Ranging"
    and s': "s' = s\<lparr>workers := (workers s)[i := WorkerDone]\<rparr>"
    by (auto split: if_splits)
  have "Handing r \<in> set ((workers s)[i := WorkerDone]) \<longleftrightarrow> Handing r \<in> set (workers s)" for r
    using g(2) set_update_D [of "Handing r" "workers s" i WorkerDone]
      set_update_keep [of "Handing r" "workers s" i WorkerDone] by auto
  with k show ?thesis by (simp add: outcomesKept_def s')
next
  case (WorkerCtxDone i)
  with st obtain job where g: "i < length (workers s)" "workers s ! i = Selecting job"
    and s': "s' = s\<lparr>workers := (workers s)[i := WorkerDone]\<rparr>"
    by (auto split: workerPoint.splits if_splits)
  have "Handing r \<in> set ((workers s)[i := WorkerDone]) \<longleftrightarrow> Handing r \<in> set (workers s)" for r
    using g(2) set_update_D [of "Handing r" "workers s" i WorkerDone]
      set_update_keep [of "Handing r" "workers s" i WorkerDone] by auto
  with k show ?thesis by (simp add: outcomesKept_def s')
next
  case (WorkerFetch i)
  with st obtain job where g: "i < length (workers s)" "workers s ! i = Selecting job"
      "\<not> ctxDone s"
    and s': "s' = s\<lparr>requests := requests s @ [job],
        outcomes := outcomes s @
          [outcomeOf (fetchItemsPage c (length (requests s)) (Top job) (PageJob.Skip job)) job],
        workers := (workers s)[i := Handing
          (outcomeOf (fetchItemsPage c (length (requests s)) (Top job) (PageJob.Skip job)) job)]\<rparr>"
    by (auto simp: Let_def split: workerPoint.splits if_splits)
  let ?out = "outcomeOf (fetchItemsPage c (length (requests s)) (Top job) (PageJob.Skip job)) job"
  have h: "Handing r \<in> set ((workers s)[i := Handing ?out]) \<longleftrightarrow>
      r = ?out \<or> Handing r \<in> set (workers s)" for r
    using g(1,2) set_update_D [of "Handing r" "workers s" i "Handing ?out"]
      set_update_keep [of "Handing r" "workers s" i "Handing ?out"]
      set_update_memI [of i "workers s" "Handing ?out"] by auto
  have sk: "PageResult.Skip ?out = PageJob.Skip job"
    by (simp add: outcomeOf_def split: sum.splits)
  from k show ?thesis
    unfolding outcomesKept_def s' by (auto simp: h sk)
next
  case (WorkerHandOff i)
  with st obtain out where g: "i < length (workers s)" "workers s ! i = Handing out"
    and s': "s' = s\<lparr>results := results s @ [out], workers := (workers s)[i := Ranging]\<rparr>"
    by (auto split: workerPoint.splits if_splits)
  have h1: "Handing r \<in> set ((workers s)[i := Ranging]) \<Longrightarrow> Handing r \<in> set (workers s)" for r
    using set_update_D [of "Handing r" "workers s" i Ranging] by auto
  have h2: "Handing r \<in> set (workers s) \<Longrightarrow> r = out \<or> Handing r \<in> set ((workers s)[i := Ranging])" for r
    using g(2) set_update_keep [of "Handing r" "workers s" i Ranging] by auto
  have o: "Handing out \<in> set (workers s)"
    using g by (metis nth_mem)
  from k show ?thesis
    unfolding outcomesKept_def s' using h1 h2 o by auto
next
  case (WorkerDrop i)
  with st obtain out where g: "i < length (workers s)" "workers s ! i = Handing out" "ctxDone s"
    and s': "s' = s\<lparr>workers := (workers s)[i := WorkerDone]\<rparr>"
    by (auto split: workerPoint.splits if_splits)
  have h1: "Handing r \<in> set ((workers s)[i := WorkerDone]) \<Longrightarrow> Handing r \<in> set (workers s)" for r
    using set_update_D [of "Handing r" "workers s" i WorkerDone] by auto
  from k show ?thesis
    unfolding outcomesKept_def s' using h1 g(3) by auto
next
  case CollectorReceive
  with st k show ?thesis
    by (auto simp: outcomesKept_def split: list.splits if_splits)
next
  case CollectorEnd
  with st k show ?thesis
    by (auto simp: outcomesKept_def split: if_splits)
next
  case CallerClose
  with st k show ?thesis
    by (auto simp: outcomesKept_def split: if_splits)
next
  case CallerReturn
  with st k show ?thesis
    by (auto simp: outcomesKept_def split: if_splits)
qed

lemma heldJobs_update:
  assumes "i < length ws"
  shows "heldJobs (ws[i := w]) + workerJob (ws ! i) = heldJobs ws + workerJob w"
proof -
  have a: "ws[i := w] = take i ws @ w # drop (Suc i) ws"
    using assms by (rule upd_conv_take_nth_drop)
  have b: "ws = take i ws @ ws ! i # drop (Suc i) ws"
    using assms by (rule id_take_nth_drop)
  have "heldJobs (take i ws @ w # drop (Suc i) ws) + workerJob (ws ! i) =
      heldJobs (take i ws @ ws ! i # drop (Suc i) ws) + workerJob w"
    by (simp add: heldJobs_def ac_simps)
  with a b show ?thesis by simp
qed

lemma heldJobs_replicate: "heldJobs (replicate n Ranging) = {#}"
  by (induction n) (simp_all add: heldJobs_def)

lemma heldJobs_all_done:
  "list_all (\<lambda>w. w = WorkerDone) ws \<Longrightarrow> heldJobs ws = {#}"
  by (induction ws) (simp_all add: heldJobs_def)

lemma jobAt_Suc:
  "map (jobAt c) [0..<Suc k] = map (jobAt c) [0..<k] @ [\<lparr>PageJob.Skip = of_nat k * pageSize c, Top = pageSize c\<rparr>]"
  by (simp add: jobAt_def)

lemma jobsKept_init: "jobsKept c (initFetch c)"
  unfolding jobsKept_def initFetch_def
  by (auto simp: heldJobs_replicate intro: exI [of _ 0])

lemma jobsKept_step:
  assumes st: "fetchStep c a s = Some s'" and w: "wired c s" and k: "jobsKept c s"
  shows "jobsKept c s'"
proof -
  from k obtain n where
    k1: "sentJobs s = map (jobAt c) [0..<n]"
        "\<forall>i<n. of_nat i * pageSize c <s totalCount c"
        "case producer s of
           Sending skip \<Rightarrow> skip = of_nat n * pageSize c
         | ProducerDone \<Rightarrow> ctxDone s \<or> \<not> of_nat n * pageSize c <s totalCount c"
    and k2: "\<not> ctxDone s \<longrightarrow>
        mset (sentJobs s) = mset (jobs s) + heldJobs (workers s) + mset (requests s)"
    and k3: "\<not> ctxDone s \<and> WorkerDone \<in> set (workers s) \<longrightarrow> jobsClosed s \<and> jobs s = []"
    unfolding jobsKept_def by blast
  from w have w2: "jobsClosed s \<longleftrightarrow> producer s = ProducerDone"
    by (simp add: wired_def)
  show ?thesis
  proof (cases a)
    case CtxDone
    with st have s': "s' = s\<lparr>ctxDone := True\<rparr>" by simp
    have "case producer s' of
           Sending skip \<Rightarrow> skip = of_nat n * pageSize c
         | ProducerDone \<Rightarrow> ctxDone s' \<or> \<not> of_nat n * pageSize c <s totalCount c"
      using k1(3) by (simp add: s' split: producerPoint.splits)
    with k1(1,2) show ?thesis
      unfolding jobsKept_def by (auto simp: s')
  next
    case ProducerSend
    with st obtain skip where g: "producer s = Sending skip" "skip <s totalCount c"
      and s': "s' = s\<lparr>jobs := jobs s @ [\<lparr>PageJob.Skip = skip, Top = pageSize c\<rparr>],
                    sentJobs := sentJobs s @ [\<lparr>PageJob.Skip = skip, Top = pageSize c\<rparr>],
                    producer := Sending (skip + pageSize c)\<rparr>"
      by (auto split: producerPoint.splits if_splits)
    from k1(3) g(1) have sk: "skip = of_nat n * pageSize c" by simp
    have a1: "sentJobs s' = map (jobAt c) [0..<Suc n]"
      by (simp only: jobAt_Suc) (simp add: s' k1(1) sk)
    have a2: "\<forall>i<Suc n. of_nat i * pageSize c <s totalCount c"
      using k1(2) g(2) sk by (auto simp: less_Suc_eq)
    have a3: "case producer s' of
           Sending skip \<Rightarrow> skip = of_nat (Suc n) * pageSize c
         | ProducerDone \<Rightarrow> ctxDone s' \<or> \<not> of_nat (Suc n) * pageSize c <s totalCount c"
      by (simp add: s' sk distrib_right)
    have b: "\<not> ctxDone s' \<longrightarrow>
        mset (sentJobs s') = mset (jobs s') + heldJobs (workers s') + mset (requests s')"
      using k2 by (simp add: s')
    have d: "\<not> ctxDone s' \<and> WorkerDone \<in> set (workers s') \<longrightarrow> jobsClosed s' \<and> jobs s' = []"
      using k3 w2 g(1) by (auto simp: s')
    show ?thesis
      unfolding jobsKept_def using a1 a2 a3 b d by blast
  next
    case ProducerCtxDone
    with st obtain skip where g: "producer s = Sending skip" "ctxDone s"
      and s': "s' = s\<lparr>jobsClosed := True, producer := ProducerDone\<rparr>"
      by (auto split: producerPoint.splits if_splits)
    with k1(1,2) show ?thesis
      unfolding jobsKept_def by (auto simp: s')
  next
    case ProducerEnd
    with st obtain skip where g: "producer s = Sending skip" "\<not> skip <s totalCount c"
      and s': "s' = s\<lparr>jobsClosed := True, producer := ProducerDone\<rparr>"
      by (auto split: producerPoint.splits if_splits)
    from k1(3) g(1) have sk: "skip = of_nat n * pageSize c" by simp
    have a3: "case producer s' of
           Sending skip \<Rightarrow> skip = of_nat n * pageSize c
         | ProducerDone \<Rightarrow> ctxDone s' \<or> \<not> of_nat n * pageSize c <s totalCount c"
      using g(2) sk by (simp add: s')
    have a1: "sentJobs s' = map (jobAt c) [0..<n]" using k1(1) by (simp add: s')
    have b: "\<not> ctxDone s' \<longrightarrow>
        mset (sentJobs s') = mset (jobs s') + heldJobs (workers s') + mset (requests s')"
      using k2 by (simp add: s')
    have d: "\<not> ctxDone s' \<and> WorkerDone \<in> set (workers s') \<longrightarrow> jobsClosed s' \<and> jobs s' = []"
      using k3 by (auto simp: s')
    show ?thesis
      unfolding jobsKept_def using a1 k1(2) a3 b d by blast
  next
    case (WorkerReceive i)
    with st obtain job rest where g: "i < length (workers s)" "workers s ! i = Ranging"
        "jobs s = job # rest"
      and s': "s' = s\<lparr>jobs := rest, workers := (workers s)[i := Selecting job]\<rparr>"
      by (auto split: list.splits if_splits)
    from heldJobs_update [OF g(1), of "Selecting job"] g(2)
    have h: "heldJobs ((workers s)[i := Selecting job]) = heldJobs (workers s) + {#job#}"
      by simp
    have b: "\<not> ctxDone s' \<longrightarrow>
        mset (sentJobs s') = mset (jobs s') + heldJobs (workers s') + mset (requests s')"
      using k2 g(3) by (simp add: s' h)
    have "WorkerDone \<in> set (workers s') \<Longrightarrow> WorkerDone \<in> set (workers s)"
      using set_update_D [of WorkerDone "workers s" i "Selecting job"] by (simp add: s')
    then have d: "\<not> ctxDone s' \<and> WorkerDone \<in> set (workers s') \<longrightarrow>
        jobsClosed s' \<and> jobs s' = []"
      using k3 g(3) by (auto simp: s')
    have a: "sentJobs s' = sentJobs s" "producer s' = producer s" "ctxDone s' = ctxDone s"
      by (simp_all add: s')
    show ?thesis
      unfolding jobsKept_def a using k1 b d unfolding a by blast
  next
    case (WorkerEnd i)
    with st have g: "i < length (workers s)" "workers s ! i = Ranging" "jobs s = []" "jobsClosed s"
      and s': "s' = s\<lparr>workers := (workers s)[i := WorkerDone]\<rparr>"
      by (auto split: if_splits)
    from heldJobs_update [OF g(1), of WorkerDone] g(2)
    have h: "heldJobs ((workers s)[i := WorkerDone]) = heldJobs (workers s)"
      by simp
    have b: "\<not> ctxDone s' \<longrightarrow>
        mset (sentJobs s') = mset (jobs s') + heldJobs (workers s') + mset (requests s')"
      using k2 by (simp add: s' h)
    have d: "\<not> ctxDone s' \<and> WorkerDone \<in> set (workers s') \<longrightarrow>
        jobsClosed s' \<and> jobs s' = []"
      using g(3,4) by (simp add: s')
    have a: "sentJobs s' = sentJobs s" "producer s' = producer s" "ctxDone s' = ctxDone s"
      by (simp_all add: s')
    show ?thesis
      unfolding jobsKept_def a using k1 b d unfolding a by blast
  next
    case (WorkerCtxDone i)
    with st obtain job where g: "ctxDone s"
      and s': "s' = s\<lparr>workers := (workers s)[i := WorkerDone]\<rparr>"
      by (auto split: workerPoint.splits if_splits)
    have a: "sentJobs s' = sentJobs s" "producer s' = producer s" "ctxDone s' = ctxDone s"
      by (simp_all add: s')
    show ?thesis
      unfolding jobsKept_def a using k1 g by blast
  next
    case (WorkerFetch i)
    with st obtain job out where g: "i < length (workers s)" "workers s ! i = Selecting job"
      and s': "s' = s\<lparr>requests := requests s @ [job], outcomes := outcomes s @ [out],
          workers := (workers s)[i := Handing out]\<rparr>"
      by (auto simp: Let_def split: workerPoint.splits if_splits)
    from heldJobs_update [OF g(1), of "Handing out"] g(2)
    have h: "heldJobs ((workers s)[i := Handing out]) + {#job#} = heldJobs (workers s)"
      by simp
    have b: "\<not> ctxDone s' \<longrightarrow>
        mset (sentJobs s') = mset (jobs s') + heldJobs (workers s') + mset (requests s')"
      using k2 h [symmetric] by (simp add: s')
    have "WorkerDone \<in> set (workers s') \<Longrightarrow> WorkerDone \<in> set (workers s)"
      using set_update_D [of WorkerDone "workers s" i "Handing out"] by (simp add: s')
    then have d: "\<not> ctxDone s' \<and> WorkerDone \<in> set (workers s') \<longrightarrow>
        jobsClosed s' \<and> jobs s' = []"
      using k3 by (auto simp: s')
    have a: "sentJobs s' = sentJobs s" "producer s' = producer s" "ctxDone s' = ctxDone s"
      by (simp_all add: s')
    show ?thesis
      unfolding jobsKept_def a using k1 b d unfolding a by blast
  next
    case (WorkerHandOff i)
    with st obtain out where g: "i < length (workers s)" "workers s ! i = Handing out"
      and s': "s' = s\<lparr>results := results s @ [out], workers := (workers s)[i := Ranging]\<rparr>"
      by (auto split: workerPoint.splits if_splits)
    from heldJobs_update [OF g(1), of Ranging] g(2)
    have h: "heldJobs ((workers s)[i := Ranging]) = heldJobs (workers s)"
      by simp
    have b: "\<not> ctxDone s' \<longrightarrow>
        mset (sentJobs s') = mset (jobs s') + heldJobs (workers s') + mset (requests s')"
      using k2 by (simp add: s' h)
    have "WorkerDone \<in> set (workers s') \<Longrightarrow> WorkerDone \<in> set (workers s)"
      using set_update_D [of WorkerDone "workers s" i Ranging] by (simp add: s')
    then have d: "\<not> ctxDone s' \<and> WorkerDone \<in> set (workers s') \<longrightarrow>
        jobsClosed s' \<and> jobs s' = []"
      using k3 by (auto simp: s')
    have a: "sentJobs s' = sentJobs s" "producer s' = producer s" "ctxDone s' = ctxDone s"
      by (simp_all add: s')
    show ?thesis
      unfolding jobsKept_def a using k1 b d unfolding a by blast
  next
    case (WorkerDrop i)
    with st obtain out where g: "ctxDone s"
      and s': "s' = s\<lparr>workers := (workers s)[i := WorkerDone]\<rparr>"
      by (auto split: workerPoint.splits if_splits)
    have a: "sentJobs s' = sentJobs s" "producer s' = producer s" "ctxDone s' = ctxDone s"
      by (simp_all add: s')
    show ?thesis
      unfolding jobsKept_def a using k1 g by blast
  next
    case CollectorReceive
    with st obtain out rest where
      s': "s' = s\<lparr>results := rest, allResults := allResults s @ [out]\<rparr>"
      by (auto split: list.splits if_splits)
    have a: "sentJobs s' = sentJobs s" "producer s' = producer s" "ctxDone s' = ctxDone s"
      "jobs s' = jobs s" "workers s' = workers s" "requests s' = requests s"
      "jobsClosed s' = jobsClosed s"
      by (simp_all add: s')
    from k show ?thesis unfolding jobsKept_def a .
  next
    case CollectorEnd
    with st have s': "s' = s\<lparr>collectorDone := True\<rparr>"
      by (auto split: if_splits)
    have a: "sentJobs s' = sentJobs s" "producer s' = producer s" "ctxDone s' = ctxDone s"
      "jobs s' = jobs s" "workers s' = workers s" "requests s' = requests s"
      "jobsClosed s' = jobsClosed s"
      by (simp_all add: s')
    from k show ?thesis unfolding jobsKept_def a .
  next
    case CallerClose
    with st have s': "s' = s\<lparr>resultsClosed := True, caller := WaitCollector\<rparr>"
      by (auto split: if_splits)
    have a: "sentJobs s' = sentJobs s" "producer s' = producer s" "ctxDone s' = ctxDone s"
      "jobs s' = jobs s" "workers s' = workers s" "requests s' = requests s"
      "jobsClosed s' = jobsClosed s"
      by (simp_all add: s')
    from k show ?thesis unfolding jobsKept_def a .
  next
    case CallerReturn
    with st have
      s': "s' = s\<lparr>caller := Returned (combineResults [] (allResults s))\<rparr>"
      by (auto split: if_splits)
    have a: "sentJobs s' = sentJobs s" "producer s' = producer s" "ctxDone s' = ctxDone s"
      "jobs s' = jobs s" "workers s' = workers s" "requests s' = requests s"
      "jobsClosed s' = jobsClosed s"
      by (simp_all add: s')
    from k show ?thesis unfolding jobsKept_def a .
  qed
qed

lemma runFetch_append:
  "runFetch c (as @ bs) s =
     (case runFetch c as s of None \<Rightarrow> None | Some s' \<Rightarrow> runFetch c bs s')"
  by (induction as arbitrary: s) (simp_all split: option.splits)

lemma run_invariants:
  "runFetch c sched s = Some s' \<Longrightarrow> wired c s \<and> outcomesKept s \<and> jobsKept c s \<Longrightarrow>
   wired c s' \<and> outcomesKept s' \<and> jobsKept c s'"
proof (induction sched arbitrary: s)
  case Nil
  then show ?case by simp
next
  case (Cons a as)
  from Cons.prems(1) obtain t where t: "fetchStep c a s = Some t" "runFetch c as t = Some s'"
    by (auto split: option.splits)
  from Cons.prems(2) t(1) have "wired c t \<and> outcomesKept t \<and> jobsKept c t"
    using wired_step outcomesKept_step jobsKept_step by blast
  with Cons.IH [OF t(2)] show ?case .
qed

lemma fetch_invariants:
  assumes "fetchAllItemsConcurrently c sched = Some s"
  shows "wired c s" "outcomesKept s" "jobsKept c s"
proof -
  from assms have "runFetch c sched (initFetch c) = Some s"
    by (simp add: fetchAllItemsConcurrently_def split: if_splits)
  from run_invariants [OF this] wired_init outcomesKept_init jobsKept_init
  show "wired c s" "outcomesKept s" "jobsKept c s" by blast+
qed

lemma returned_workers_done:
  assumes "wired c s" "caller s = Returned v"
  shows "list_all (\<lambda>w. w = WorkerDone) (workers s)" "results s = []"
    "v = combineResults [] (allResults s)"
  using assms by (auto simp: wired_def)

lemma returned_outcomes:
  assumes run: "fetchAllItemsConcurrently c sched = Some s" and ret: "caller s = Returned v"
  shows "v = combineResults [] (allResults s)"
    and "set (allResults s) \<subseteq> set (outcomes s)"
    and "\<not> ctxDone s \<Longrightarrow> set (outcomes s) \<subseteq> set (allResults s)"
proof -
  note inv = fetch_invariants [OF run]
  note d = returned_workers_done [OF inv(1) ret]
  show "v = combineResults [] (allResults s)" by (rule d(3))
  from inv(2) show "set (allResults s) \<subseteq> set (outcomes s)"
    by (auto simp: outcomesKept_def)
  assume nc: "\<not> ctxDone s"
  show "set (outcomes s) \<subseteq> set (allResults s)"
  proof
    fix r assume "r \<in> set (outcomes s)"
    with inv(2) nc have "r \<in> set (results s) \<or> r \<in> set (allResults s) \<or>
        Handing r \<in> set (workers s)"
      by (auto simp: outcomesKept_def)
    moreover have "Handing r \<notin> set (workers s)"
      using d(1) by (auto simp: list_all_iff)
    ultimately show "r \<in> set (allResults s)" using d(2) by simp
  qed
qed

lemma returned_jobs:
  assumes run: "fetchAllItemsConcurrently c sched = Some s" and ret: "caller s = Returned v"
    and nc: "\<not> ctxDone s" and w1: "1 \<le> sint (numWorkers c)"
  shows "\<exists>k. sentJobs s = map (jobAt c) [0..<k] \<and>
           (\<forall>i<k. of_nat i * pageSize c <s totalCount c) \<and>
           \<not> of_nat k * pageSize c <s totalCount c"
    and "mset (requests s) = mset (sentJobs s)"
proof -
  note inv = fetch_invariants [OF run]
  note d = returned_workers_done [OF inv(1) ret]
  from inv(1) w1 have "0 < length (workers s)"
    by (simp add: wired_def workerCount_def)
  then have "workers s ! 0 \<in> set (workers s)" by simp
  with d(1) have wd: "WorkerDone \<in> set (workers s)"
    by (auto simp: list_all_iff)
  with inv(3) nc have cl: "jobsClosed s" "jobs s = []"
    by (auto simp: jobsKept_def)
  with inv(1) have pd: "producer s = ProducerDone"
    by (simp add: wired_def)
  from inv(3) obtain k where k: "sentJobs s = map (jobAt c) [0..<k]"
      "\<forall>i<k. of_nat i * pageSize c <s totalCount c"
      "case producer s of
         Sending skip \<Rightarrow> skip = of_nat k * pageSize c
       | ProducerDone \<Rightarrow> ctxDone s \<or> \<not> of_nat k * pageSize c <s totalCount c"
    unfolding jobsKept_def by blast
  from k(3) pd nc have "\<not> of_nat k * pageSize c <s totalCount c" by simp
  with k(1,2) show "\<exists>k. sentJobs s = map (jobAt c) [0..<k] \<and>
           (\<forall>i<k. of_nat i * pageSize c <s totalCount c) \<and>
           \<not> of_nat k * pageSize c <s totalCount c"
    by blast
  from inv(3) nc have "mset (sentJobs s) =
      mset (jobs s) + heldJobs (workers s) + mset (requests s)"
    by (simp add: jobsKept_def)
  with cl(2) heldJobs_all_done [OF d(1)] show "mset (requests s) = mset (sentJobs s)"
    by simp
qed

lemma offsets_no_wrap:
  assumes "0 \<le> sint (totalCount c)" "0 < sint (pageSize c)"
    and "int (pageCount_spec c) * sint (pageSize c) < 2 ^ 63"
  shows "i \<le> pageCount_spec c \<Longrightarrow> sint (of_nat i * pageSize c) = int i * sint (pageSize c)"
    and "i < pageCount_spec c \<Longrightarrow> of_nat i * pageSize c <s totalCount c"
    and "\<not> of_nat (pageCount_spec c) * pageSize c <s totalCount c"
proof -
  let ?T = "sint (totalCount c)" and ?P = "sint (pageSize c)" and ?n = "pageCount_spec c"
  have nw: "sint (of_nat i * pageSize c) = int i * ?P" if "i \<le> ?n" for i
  proof (rule sint_of_nat_mult_no_wrap)
    show "0 \<le> int i * ?P" using assms(2) by simp
    from that have "int i * ?P \<le> int ?n * ?P"
      using assms(2) by (simp add: mult_right_mono)
    with assms(3) show "int i * ?P < 2 ^ 63" by linarith
  qed
  then show "i \<le> ?n \<Longrightarrow> sint (of_nat i * pageSize c) = int i * ?P" .
  have n: "int ?n = (?T + ?P - 1) div ?P"
    using ceil_bounds(3) [OF assms(1,2)] by (simp add: pageCount_spec_def)
  show "of_nat i * pageSize c <s totalCount c" if "i < ?n" for i
  proof -
    from that below_ceil_iff [OF assms(1,2), of i] have "int i * ?P < ?T"
      by (simp add: pageCount_spec_def)
    with nw [of i] that show ?thesis by (simp add: word_sless_alt)
  qed
  have "?T \<le> int ?n * ?P"
    unfolding n by (rule ceil_bounds(1) [OF assms(1,2)])
  with nw [of ?n] show "\<not> of_nat ?n * pageSize c <s totalCount c"
    by (simp add: word_sless_alt)
qed

lemma sent_pages:
  assumes "0 \<le> sint (totalCount c)" "0 < sint (pageSize c)"
    and "int (pageCount_spec c) * sint (pageSize c) < 2 ^ 63"
    and "\<forall>i<k. of_nat i * pageSize c <s totalCount c"
    and "\<not> of_nat k * pageSize c <s totalCount c"
  shows "k = pageCount_spec c"
proof (rule ccontr)
  assume "k \<noteq> pageCount_spec c"
  then consider "k < pageCount_spec c" | "pageCount_spec c < k" by linarith
  then show False
  proof cases
    case 1
    from offsets_no_wrap(2) [OF assms(1-3) 1] assms(5) show False by simp
  next
    case 2
    with assms(4) offsets_no_wrap(3) [OF assms(1-3)] show False by simp
  qed
qed

lemma chanCap_pos:
  assumes "1 \<le> sint (numWorkers c)" "0 \<le> sint (numWorkers c * 2)"
  shows "0 < chanCap c"
proof -
  let ?w = "sint (numWorkers c)"
  have b: "?w < 2 ^ 63" using sint_lt [of "numWorkers c"] by simp
  have e: "sint (numWorkers c * 2) = signed_take_bit 63 (?w * 2)"
    by (simp add: sint_word_ariths)
  have "0 < sint (numWorkers c * 2)"
  proof (cases "?w * 2 < 2 ^ 63")
    case True
    then have "signed_take_bit 63 (?w * 2) = ?w * 2"
      using assms(1) by (intro signed_take_bit_int_eq_self) simp_all
    with e assms(1) show ?thesis by simp
  next
    case False
    let ?y = "?w * 2 + 2 ^ 63"
    have "(?y - 2 ^ 64) mod 2 ^ 64 = ?y - 2 ^ 64"
      using False b by (intro mod_pos_pos_trivial) simp_all
    moreover have "(?y - 2 ^ 64) mod 2 ^ 64 = ?y mod 2 ^ 64"
      by (rule minus_mod_self2)
    ultimately have "?y mod 2 ^ 64 = ?y - 2 ^ 64" by simp
    then have "signed_take_bit 63 (?w * 2) = ?w * 2 - 2 ^ 64"
      by (simp add: signed_take_bit_eq_take_bit_shift take_bit_eq_mod)
    with e b assms(2) show ?thesis by simp
  qed
  then show ?thesis by (simp add: chanCap_def)
qed

lemma pageRound_step:
  assumes s: "of_nat k * pageSize c <s totalCount c"
    and w: "1 \<le> sint (numWorkers c)" and cap: "0 < chanCap c"
  shows "runFetch c pageRound (afterRounds c k) = Some (afterRounds c (Suc k))"
proof -
  from w obtain m where m: "workerCount c = Suc m"
    by (cases "workerCount c") (simp_all add: workerCount_def)
  show ?thesis
    using s cap
    by (simp add: pageRound_def afterRounds_def m jobAt_def pageOutcome_def Let_def
        distrib_right)
qed

lemma pageRounds:
  assumes "\<forall>i<k. of_nat i * pageSize c <s totalCount c"
    and w: "1 \<le> sint (numWorkers c)" and cap: "0 < chanCap c"
  shows "runFetch c (concat (replicate k pageRound)) (initFetch c) = Some (afterRounds c k)"
  using assms(1)
proof (induction k)
  case 0
  show ?case by (simp add: afterRounds_def initFetch_def)
next
  case (Suc k)
  then have ih: "runFetch c (concat (replicate k pageRound)) (initFetch c) =
      Some (afterRounds c k)" by simp
  from Suc.prems have "of_nat k * pageSize c <s totalCount c" by simp
  note st = pageRound_step [OF this w cap]
  have "replicate (Suc k) pageRound = replicate k pageRound @ [pageRound]"
    by (simp add: replicate_append_same)
  then have "concat (replicate (Suc k) pageRound) = concat (replicate k pageRound) @ pageRound"
    by (simp only: concat_append) simp
  then show ?case
    by (simp only: runFetch_append ih st option.case)
qed

lemma workers_end:
  assumes "jobs s = []" "jobsClosed s" "workers s = replicate m Ranging"
  shows "j \<le> m \<Longrightarrow> runFetch c (map WorkerEnd [0..<j]) s =
      Some (s\<lparr>workers := replicate j WorkerDone @ replicate (m - j) Ranging\<rparr>)"
proof (induction j)
  case 0
  then show ?case using assms(3) by simp
next
  case (Suc j)
  then have ih: "runFetch c (map WorkerEnd [0..<j]) s =
      Some (s\<lparr>workers := replicate j WorkerDone @ replicate (m - j) Ranging\<rparr>)"
    by simp
  from Suc.prems obtain d where d: "m - j = Suc d" "m - Suc j = d"
    by (cases "m - j") simp_all
  have u: "(replicate j WorkerDone @ replicate (Suc d) Ranging)[j := WorkerDone] =
      replicate (Suc j) WorkerDone @ replicate d Ranging"
    by (simp add: list_update_append replicate_append_same)
  have n: "(replicate j WorkerDone @ replicate (Suc d) Ranging) ! j = Ranging"
    by (simp add: nth_append)
  have "fetchStep c (WorkerEnd j)
      (s\<lparr>workers := replicate j WorkerDone @ replicate (Suc d) Ranging\<rparr>) =
      Some (s\<lparr>workers := replicate (Suc j) WorkerDone @ replicate d Ranging\<rparr>)"
    using assms(1,2) n u by simp
  then show ?case
    unfolding d by (simp add: runFetch_append ih d)
qed

lemma sequentialRun_returns:
  assumes T: "0 \<le> sint (totalCount c)" and P: "0 < sint (pageSize c)"
    and b: "int (pageCount_spec c) * sint (pageSize c) < 2 ^ 63"
    and w: "1 \<le> sint (numWorkers c)" and mk: "0 \<le> sint (numWorkers c * 2)"
  shows "\<exists>s. fetchAllItemsConcurrently c (sequentialRun c) = Some s \<and>
      caller s = Returned (combineResults [] (map (pageOutcome c) [0..<pageCount_spec c])) \<and>
      \<not> ctxDone s"
proof -
  let ?n = "pageCount_spec c" and ?m = "workerCount c"
  note cap = chanCap_pos [OF w mk]
  have "\<forall>i<?n. of_nat i * pageSize c <s totalCount c"
    using offsets_no_wrap(2) [OF T P b] by blast
  note r = pageRounds [OF this w cap]
  note e = offsets_no_wrap(3) [OF T P b]
  let ?s1 = "(afterRounds c ?n)\<lparr>jobsClosed := True, producer := ProducerDone\<rparr>"
  have 1: "runFetch c [ProducerEnd] (afterRounds c ?n) = Some ?s1"
    using e by (simp add: afterRounds_def)
  have "runFetch c (map WorkerEnd [0..<?m]) ?s1 =
      Some (?s1\<lparr>workers := replicate ?m WorkerDone @ replicate (?m - ?m) Ranging\<rparr>)"
    by (rule workers_end) (simp_all add: afterRounds_def)
  then have 2: "runFetch c (map WorkerEnd [0..<?m]) ?s1 =
      Some (?s1\<lparr>workers := replicate ?m WorkerDone\<rparr>)"
    by simp
  let ?s2 = "?s1\<lparr>workers := replicate ?m WorkerDone\<rparr>"
  have 3: "runFetch c [CallerClose, CollectorEnd, CallerReturn] ?s2 =
      Some (?s2\<lparr>resultsClosed := True, collectorDone := True,
        caller := Returned (combineResults [] (map (pageOutcome c) [0..<?n]))\<rparr>)"
    by (simp add: afterRounds_def list_all_length)
  have sh: "shutdown c =
      [ProducerEnd] @ map WorkerEnd [0..<?m] @ [CallerClose, CollectorEnd, CallerReturn]"
    by (simp add: shutdown_def)
  have "runFetch c (sequentialRun c) (initFetch c) =
      Some (?s2\<lparr>resultsClosed := True, collectorDone := True,
        caller := Returned (combineResults [] (map (pageOutcome c) [0..<?n]))\<rparr>)"
    unfolding sequentialRun_def sh
    by (simp only: runFetch_append r 1 2 3 option.case)
  with mk show ?thesis
    by (simp add: fetchAllItemsConcurrently_def afterRounds_def)
qed

text \<open>
  Beyond the bound the producer does not stop where the specification has it stop:
  the offset \<open>\<lceil>totalCount / pageSize\<rceil> * pageSize\<close> wraps around to a negative number,
  which is below the total count.
\<close>

lemma offsets_wrap_beyond_bound:
  assumes T: "0 \<le> sint (totalCount c)" and P: "0 < sint (pageSize c)"
    and b: "2 ^ 63 \<le> int (pageCount_spec c) * sint (pageSize c)"
  shows "of_nat (pageCount_spec c) * pageSize c <s totalCount c"
proof -
  let ?T = "sint (totalCount c)" and ?P = "sint (pageSize c)" and ?n = "pageCount_spec c"
  let ?x = "int ?n * ?P"
  have n: "int ?n = (?T + ?P - 1) div ?P"
    using ceil_bounds(3) [OF T P] by (simp add: pageCount_spec_def)
  have "(int ?n - 1) * ?P < ?T"
    unfolding n by (rule ceil_bounds(2) [OF T P])
  then have "?x < ?T + ?P" by (simp add: algebra_simps)
  moreover have "?T < 9223372036854775808" "?P < 9223372036854775808"
    using sint_lt [of "totalCount c"] sint_lt [of "pageSize c"] by simp_all
  ultimately have "?x < 18446744073709551616" by linarith
  then have u: "?x < 2 ^ 64" by simp
  let ?y = "?x + 2 ^ 63"
  have "(?y - 2 ^ 64) mod 2 ^ 64 = ?y - 2 ^ 64"
    using b u by (intro mod_pos_pos_trivial) simp_all
  moreover have "(?y - 2 ^ 64) mod 2 ^ 64 = ?y mod 2 ^ 64"
    by (rule minus_mod_self2)
  ultimately have "?y mod 2 ^ 64 = ?y - 2 ^ 64" by simp
  then have s: "signed_take_bit 63 ?x = ?x - 2 ^ 64"
    by (simp add: signed_take_bit_eq_take_bit_shift take_bit_eq_mod)
  have "of_nat ?n * pageSize c = (word_of_int ?x :: goint)"
    by simp
  then have "sint (of_nat ?n * pageSize c) = signed_take_bit 63 ?x"
    by (simp only: sint_sbintrunc') simp
  with s u T show ?thesis
    by (simp add: word_sless_alt)
qed

lemmas fetch_defs = fetchAllItemsConcurrently_def initFetch_def workerCount_def chanCap_def
  outcomeOf_def Let_def word_sless_alt numeral_2_eq_2

text \<open>
  C3, as amended. In every run of the call that returns, the outcomes collected were
  produced by page requests, with the offsets of these requests. If one of the outcomes
  collected carries a failure, the call returns an error that wraps the offset and the
  cause of a failed page request, and returns no records, whatever the other pages
  fetched. If the context is not done, every outcome produced is collected, so the same
  holds as soon as one page request has failed. A worker whose context is done can drop
  the outcome it holds: the claim does not hold of a failure that is dropped.
\<close>
theorem C3_fetch_all_or_nothing:
  "fetchAllItemsConcurrently c sched = Some s \<and> caller s = Returned v \<longrightarrow>
   set (allResults s) \<subseteq> set (outcomes s) \<and>
   map PageResult.Skip (outcomes s) = map PageJob.Skip (requests s) \<and>
   ((\<exists>r\<in>set (allResults s). Err r \<noteq> None) \<longrightarrow>
      (\<exists>r\<in>set (outcomes s). \<exists>e. Err r = Some e \<and>
         v = Inl (ErrorFetchingPage (PageResult.Skip r) e)) \<and>
      (\<forall>items. v \<noteq> Inr items)) \<and>
   (\<not> ctxDone s \<and> (\<exists>r\<in>set (outcomes s). Err r \<noteq> None) \<longrightarrow>
      (\<exists>r\<in>set (outcomes s). \<exists>e. Err r = Some e \<and>
         v = Inl (ErrorFetchingPage (PageResult.Skip r) e)) \<and>
      (\<forall>items. v \<noteq> Inr items))"
proof
  assume a: "fetchAllItemsConcurrently c sched = Some s \<and> caller s = Returned v"
  then have run: "fetchAllItemsConcurrently c sched = Some s" and ret: "caller s = Returned v"
    by simp_all
  note o = returned_outcomes [OF run ret]
  have sk: "map PageResult.Skip (outcomes s) = map PageJob.Skip (requests s)"
    using fetch_invariants(2) [OF run] by (simp add: outcomesKept_def)
  have f: "(\<exists>r\<in>set (outcomes s). \<exists>e. Err r = Some e \<and>
         v = Inl (ErrorFetchingPage (PageResult.Skip r) e)) \<and>
      (\<forall>items. v \<noteq> Inr items)"
    if "\<exists>r\<in>set (allResults s). Err r \<noteq> None"
  proof -
    from combineResults_failure [OF that, of "[]"] obtain r e where
      r: "r \<in> set (allResults s)" "Err r = Some e"
        "combineResults [] (allResults s) = Inl (ErrorFetchingPage (PageResult.Skip r) e)"
      by blast
    from r(1) o(2) have "r \<in> set (outcomes s)" by blast
    with r(2,3) o(1) show ?thesis by auto
  qed
  have g: "\<exists>r\<in>set (allResults s). Err r \<noteq> None"
    if "\<not> ctxDone s \<and> (\<exists>r\<in>set (outcomes s). Err r \<noteq> None)"
    using that o(3) by blast
  show "set (allResults s) \<subseteq> set (outcomes s) \<and>
   map PageResult.Skip (outcomes s) = map PageJob.Skip (requests s) \<and>
   ((\<exists>r\<in>set (allResults s). Err r \<noteq> None) \<longrightarrow>
      (\<exists>r\<in>set (outcomes s). \<exists>e. Err r = Some e \<and>
         v = Inl (ErrorFetchingPage (PageResult.Skip r) e)) \<and>
      (\<forall>items. v \<noteq> Inr items)) \<and>
   (\<not> ctxDone s \<and> (\<exists>r\<in>set (outcomes s). Err r \<noteq> None) \<longrightarrow>
      (\<exists>r\<in>set (outcomes s). \<exists>e. Err r = Some e \<and>
         v = Inl (ErrorFetchingPage (PageResult.Skip r) e)) \<and>
      (\<forall>items. v \<noteq> Inr items))"
    using o(2) sk f g by blast
qed

text \<open>
  Two pages, one worker, the context not done: the page at offset 0 gives a record,
  the page at offset 20 fails, both outcomes are collected, and the call returns the
  error of the page at offset 20 and no record.
\<close>
theorem C3_fetch_all_or_nothing_witness:
  "fetchAllItemsConcurrently twoPageCall collectedFailureRun =
     Some \<lparr>ctxDone = False, producer = ProducerDone, jobs = [], jobsClosed = True,
       workers = [WorkerDone], results = [], resultsClosed = True,
       allResults = [\<lparr>Items = [namedItem ''Product A''], Skip = 0, Err = None\<rparr>,
         \<lparr>Items = [], Skip = 20, Err = Some ''unexpected status code: 500''\<rparr>],
       collectorDone = True,
       caller = Returned (Inl (ErrorFetchingPage 20 ''unexpected status code: 500'')),
       sentJobs = [\<lparr>PageJob.Skip = 0, Top = 20\<rparr>, \<lparr>PageJob.Skip = 20, Top = 20\<rparr>],
       requests = [\<lparr>PageJob.Skip = 0, Top = 20\<rparr>, \<lparr>PageJob.Skip = 20, Top = 20\<rparr>],
       outcomes = [\<lparr>Items = [namedItem ''Product A''], Skip = 0, Err = None\<rparr>,
         \<lparr>Items = [], Skip = 20, Err = Some ''unexpected status code: 500''\<rparr>]\<rparr>"
proof -
  define s where "s = \<lparr>ctxDone = False, producer = ProducerDone, jobs = [], jobsClosed = True,
       workers = [WorkerDone], results = [], resultsClosed = True,
       allResults = [\<lparr>Items = [namedItem ''Product A''], Skip = 0, Err = None\<rparr>,
         \<lparr>Items = [], Skip = 20, Err = Some ''unexpected status code: 500''\<rparr>],
       collectorDone = True,
       caller = Returned (combineResults []
         [\<lparr>Items = [namedItem ''Product A''], Skip = 0, Err = None\<rparr>,
          \<lparr>Items = [], Skip = 20, Err = Some ''unexpected status code: 500''\<rparr>]),
       sentJobs = [\<lparr>PageJob.Skip = 0, Top = 20\<rparr>, \<lparr>PageJob.Skip = 20, Top = 20\<rparr>],
       requests = [\<lparr>PageJob.Skip = 0, Top = 20\<rparr>, \<lparr>PageJob.Skip = 20, Top = 20\<rparr>],
       outcomes = [\<lparr>Items = [namedItem ''Product A''], Skip = 0, Err = None\<rparr>,
         \<lparr>Items = [], Skip = 20, Err = Some ''unexpected status code: 500''\<rparr>]\<rparr>"
  define v where "v = combineResults []
         [\<lparr>Items = [namedItem ''Product A''], Skip = 0, Err = None\<rparr>,
          \<lparr>Items = [], Skip = 20, Err = Some ''unexpected status code: 500''\<rparr>]"
  have run: "fetchAllItemsConcurrently twoPageCall collectedFailureRun = Some s"
    by (simp add: s_def fetch_defs twoPageCall_def collectedFailureRun_def failingPage_def)
  have ret: "caller s = Returned v"
    by (simp add: s_def v_def)
  have h: "\<not> ctxDone s \<and> (\<exists>r\<in>set (outcomes s). Err r \<noteq> None)"
    by (simp add: s_def)
  from C3_fetch_all_or_nothing [of twoPageCall collectedFailureRun s v] run ret h
  have "\<exists>r\<in>set (outcomes s). \<exists>e. Err r = Some e \<and>
         v = Inl (ErrorFetchingPage (PageResult.Skip r) e)"
    by (simp only: simp_thms)
  then have "v = Inl (ErrorFetchingPage 20 ''unexpected status code: 500'')"
    by (simp add: s_def)
  with run show ?thesis
    by (simp only: s_def v_def)
qed

text \<open>
  The claim as stated, for every run and every outcome that carries a failure, fails
  where the context becomes done while a worker holds the failed outcome: the worker
  returns without handing it over, and the call returns the record of the page at
  offset 0 and no error, although the request of the page at offset 20 failed.
\<close>
theorem C3_counterexample_dropped_failure:
  "fetchAllItemsConcurrently twoPageCall droppedFailureRun =
     Some \<lparr>ctxDone = True, producer = ProducerDone, jobs = [], jobsClosed = True,
       workers = [WorkerDone], results = [], resultsClosed = True,
       allResults = [\<lparr>Items = [namedItem ''Product A''], Skip = 0, Err = None\<rparr>],
       collectorDone = True,
       caller = Returned (Inr [namedItem ''Product A'']),
       sentJobs = [\<lparr>PageJob.Skip = 0, Top = 20\<rparr>, \<lparr>PageJob.Skip = 20, Top = 20\<rparr>],
       requests = [\<lparr>PageJob.Skip = 0, Top = 20\<rparr>, \<lparr>PageJob.Skip = 20, Top = 20\<rparr>],
       outcomes = [\<lparr>Items = [namedItem ''Product A''], Skip = 0, Err = None\<rparr>,
         \<lparr>Items = [], Skip = 20, Err = Some ''unexpected status code: 500''\<rparr>]\<rparr>"
  by (simp add: fetch_defs twoPageCall_def droppedFailureRun_def failingPage_def)

text \<open>
  C7, as amended. For a worker count of at least 1, a total count of at least 0 and a
  page size above 0 such that \<open>\<lceil>totalCount / pageSize\<rceil> * pageSize\<close>, the offset at
  which the producer stops, is below \<open>2^63\<close>: in every run of the call that returns
  and whose context is not done, the jobs sent are those with the offsets
  \<open>k * pageSize\<close> for \<open>k\<close> below \<open>\<lceil>totalCount / pageSize\<rceil>\<close>, in this order and each
  with the limit \<open>pageSize\<close>, and the page requests made are these jobs, each once, in
  some order; these offsets are the multiples of \<open>pageSize\<close> strictly below
  \<open>totalCount\<close>. Such a run exists whenever the capacity \<^verbatim>\<open>numWorkers*2\<close> of the
  channels is not negative. For 47 and 20 the offsets requested are 0, 20 and 40.
  Nothing but the lower bound is asked of the worker count.
\<close>
theorem C7_page_offsets:
  "(fetchAllItemsConcurrently c sched = Some s \<and> caller s = Returned v \<and> \<not> ctxDone s \<and>
    1 \<le> sint (numWorkers c) \<and> 0 \<le> sint (totalCount c) \<and> 0 < sint (pageSize c) \<and>
    int (pageCount_spec c) * sint (pageSize c) < 2 ^ 63 \<longrightarrow>
      sentJobs s = map (jobAt c) [0..<pageCount_spec c] \<and>
      mset (requests s) = mset (map (jobAt c) [0..<pageCount_spec c]) \<and>
      (\<forall>k. k < pageCount_spec c \<longleftrightarrow> int k * sint (pageSize c) < sint (totalCount c)) \<and>
      (\<forall>k. k < pageCount_spec c \<longrightarrow>
           sint (PageJob.Skip (jobAt c k)) = int k * sint (pageSize c) \<and>
           Top (jobAt c k) = pageSize c)) \<and>
   (1 \<le> sint (numWorkers c) \<and> 0 \<le> sint (numWorkers c * 2) \<and>
    0 \<le> sint (totalCount c) \<and> 0 < sint (pageSize c) \<and>
    int (pageCount_spec c) * sint (pageSize c) < 2 ^ 63 \<longrightarrow>
      (\<exists>s' v'. fetchAllItemsConcurrently c (sequentialRun c) = Some s' \<and>
         caller s' = Returned v' \<and> \<not> ctxDone s')) \<and>
   (fetchAllItemsConcurrently c sched = Some s \<and> caller s = Returned v \<and> \<not> ctxDone s \<and>
    1 \<le> sint (numWorkers c) \<and> totalCount c = 47 \<and> pageSize c = 20 \<longrightarrow>
      mset (map PageJob.Skip (requests s)) = {#0, 20, 40#})"
proof -
  have main: "sentJobs s = map (jobAt c) [0..<pageCount_spec c] \<and>
      mset (requests s) = mset (map (jobAt c) [0..<pageCount_spec c])"
    if run: "fetchAllItemsConcurrently c sched = Some s" and ret: "caller s = Returned v"
      and nc: "\<not> ctxDone s" and w: "1 \<le> sint (numWorkers c)"
      and T: "0 \<le> sint (totalCount c)" and P: "0 < sint (pageSize c)"
      and b: "int (pageCount_spec c) * sint (pageSize c) < 2 ^ 63"
  proof -
    from returned_jobs(1) [OF run ret nc w] obtain k where
      k: "sentJobs s = map (jobAt c) [0..<k]"
        "\<forall>i<k. of_nat i * pageSize c <s totalCount c"
        "\<not> of_nat k * pageSize c <s totalCount c"
      by blast
    from sent_pages [OF T P b k(2,3)] have "k = pageCount_spec c" .
    with k(1) returned_jobs(2) [OF run ret nc w] show ?thesis by simp
  qed
  have offs: "(\<forall>k. k < pageCount_spec c \<longleftrightarrow> int k * sint (pageSize c) < sint (totalCount c)) \<and>
      (\<forall>k. k < pageCount_spec c \<longrightarrow>
           sint (PageJob.Skip (jobAt c k)) = int k * sint (pageSize c) \<and>
           Top (jobAt c k) = pageSize c)"
    if T: "0 \<le> sint (totalCount c)" and P: "0 < sint (pageSize c)"
      and b: "int (pageCount_spec c) * sint (pageSize c) < 2 ^ 63"
  proof (intro conjI allI impI)
    fix k
    show "k < pageCount_spec c \<longleftrightarrow> int k * sint (pageSize c) < sint (totalCount c)"
      unfolding pageCount_spec_def by (rule below_ceil_iff [OF T P])
    assume "k < pageCount_spec c"
    then have "k \<le> pageCount_spec c" by simp
    from offsets_no_wrap(1) [OF T P b this]
    show "sint (PageJob.Skip (jobAt c k)) = int k * sint (pageSize c)"
      by (simp add: jobAt_def)
    show "Top (jobAt c k) = pageSize c" by (simp add: jobAt_def)
  qed
  have ex: "\<exists>s' v'. fetchAllItemsConcurrently c (sequentialRun c) = Some s' \<and>
         caller s' = Returned v' \<and> \<not> ctxDone s'"
    if "1 \<le> sint (numWorkers c)" "0 \<le> sint (numWorkers c * 2)"
      "0 \<le> sint (totalCount c)" "0 < sint (pageSize c)"
      "int (pageCount_spec c) * sint (pageSize c) < 2 ^ 63"
    using sequentialRun_returns [OF that(3,4,5,1,2)] by blast
  have sc: "mset (map PageJob.Skip (requests s)) = {#0, 20, 40#}"
    if run: "fetchAllItemsConcurrently c sched = Some s" and ret: "caller s = Returned v"
      and nc: "\<not> ctxDone s" and w: "1 \<le> sint (numWorkers c)"
      and T: "totalCount c = 47" and P: "pageSize c = 20"
  proof -
    have n: "pageCount_spec c = 3"
      by (simp add: pageCount_spec_def T P)
    have l: "[0..<3] = [0, Suc 0, Suc (Suc 0)]"
      by (simp add: upt_rec eval_nat_numeral)
    have "mset (requests s) = mset (map (jobAt c) [0..<pageCount_spec c])"
      using main [OF run ret nc w] by (simp add: T P n)
    then have "mset (map PageJob.Skip (requests s)) =
        mset (map PageJob.Skip (map (jobAt c) [0..<pageCount_spec c]))"
      by (simp only: mset_map)
    then show ?thesis
      unfolding n l by (simp add: jobAt_def P)
  qed
  from main offs ex sc show ?thesis by blast
qed

text \<open>
  47 records in pages of 20, two workers, the context not done: the second worker
  requests the page at offset 20 before the first requests the page at offset 0; the
  jobs sent and the requests made are those of the offsets 0, 20 and 40.
\<close>
theorem C7_page_offsets_witness:
  "fetchAllItemsConcurrently call47 twoWorkerRun =
     Some \<lparr>ctxDone = False, producer = ProducerDone, jobs = [], jobsClosed = True,
       workers = [WorkerDone, WorkerDone], results = [], resultsClosed = True,
       allResults = [\<lparr>Items = [], Skip = 20, Err = None\<rparr>,
         \<lparr>Items = [], Skip = 0, Err = None\<rparr>, \<lparr>Items = [], Skip = 40, Err = None\<rparr>],
       collectorDone = True, caller = Returned (Inr []),
       sentJobs = [\<lparr>PageJob.Skip = 0, Top = 20\<rparr>, \<lparr>PageJob.Skip = 20, Top = 20\<rparr>,
         \<lparr>PageJob.Skip = 40, Top = 20\<rparr>],
       requests = [\<lparr>PageJob.Skip = 20, Top = 20\<rparr>, \<lparr>PageJob.Skip = 0, Top = 20\<rparr>,
         \<lparr>PageJob.Skip = 40, Top = 20\<rparr>],
       outcomes = [\<lparr>Items = [], Skip = 20, Err = None\<rparr>,
         \<lparr>Items = [], Skip = 0, Err = None\<rparr>, \<lparr>Items = [], Skip = 40, Err = None\<rparr>]\<rparr> \<and>
   sint (numWorkers call47) = 2 \<and> sint (totalCount call47) = 47 \<and>
   sint (pageSize call47) = 20 \<and> pageCount_spec call47 = 3 \<and>
   map (jobAt call47) [0..<pageCount_spec call47] =
     [\<lparr>PageJob.Skip = 0, Top = 20\<rparr>, \<lparr>PageJob.Skip = 20, Top = 20\<rparr>,
      \<lparr>PageJob.Skip = 40, Top = 20\<rparr>] \<and>
   mset [\<lparr>PageJob.Skip = 20, Top = 20\<rparr>, \<lparr>PageJob.Skip = 0, Top = 20\<rparr>,
         \<lparr>PageJob.Skip = 40, Top = 20\<rparr>] =
     mset (map (jobAt call47) [0..<pageCount_spec call47])"
proof -
  define s where "s = \<lparr>ctxDone = False, producer = ProducerDone, jobs = [], jobsClosed = True,
       workers = [WorkerDone, WorkerDone], results = [], resultsClosed = True,
       allResults = [\<lparr>Items = [], Skip = 20, Err = None\<rparr>,
         \<lparr>Items = [], Skip = 0, Err = None\<rparr>, \<lparr>Items = [], Skip = 40, Err = None\<rparr>],
       collectorDone = True, caller = Returned (Inr []),
       sentJobs = [\<lparr>PageJob.Skip = 0, Top = 20\<rparr>, \<lparr>PageJob.Skip = 20, Top = 20\<rparr>,
         \<lparr>PageJob.Skip = 40, Top = 20\<rparr>],
       requests = [\<lparr>PageJob.Skip = 20, Top = 20\<rparr>, \<lparr>PageJob.Skip = 0, Top = 20\<rparr>,
         \<lparr>PageJob.Skip = 40, Top = 20\<rparr>],
       outcomes = [\<lparr>Items = [], Skip = 20, Err = None\<rparr>,
         \<lparr>Items = [], Skip = 0, Err = None\<rparr>, \<lparr>Items = [], Skip = 40, Err = None\<rparr>]\<rparr>"
  have run: "fetchAllItemsConcurrently call47 twoWorkerRun = Some s"
    by (simp add: s_def fetch_defs call47_def twoWorkerRun_def emptyPage_def)
  have ret: "caller s = Returned (Inr [])" "\<not> ctxDone s"
    by (simp_all add: s_def)
  have h: "sint (numWorkers call47) = 2" "sint (totalCount call47) = 47"
      "sint (pageSize call47) = 20" "pageCount_spec call47 = 3"
    by (simp_all add: call47_def pageCount_spec_def)
  have b: "int (pageCount_spec call47) * sint (pageSize call47) < 2 ^ 63"
    by (simp add: h)
  have l: "[0..<3] = [0, Suc 0, Suc (Suc 0)]"
    by (simp add: upt_rec numeral_3_eq_3)
  have j: "map (jobAt call47) [0..<pageCount_spec call47] =
     [\<lparr>PageJob.Skip = 0, Top = 20\<rparr>, \<lparr>PageJob.Skip = 20, Top = 20\<rparr>,
      \<lparr>PageJob.Skip = 40, Top = 20\<rparr>]"
    unfolding h l by (simp add: jobAt_def call47_def)
  from C7_page_offsets [of call47 twoWorkerRun s "Inr []"] run ret h(1,2,3) b
  have "mset (requests s) = mset (map (jobAt call47) [0..<pageCount_spec call47])"
    by (simp only: simp_thms) simp
  then have m: "mset [\<lparr>PageJob.Skip = 20, Top = 20\<rparr>, \<lparr>PageJob.Skip = 0, Top = 20\<rparr>,
         \<lparr>PageJob.Skip = 40, Top = 20\<rparr>] =
     mset (map (jobAt call47) [0..<pageCount_spec call47])"
    by (simp only: s_def fetchState.simps)
  from run have r: "fetchAllItemsConcurrently call47 twoWorkerRun =
     Some \<lparr>ctxDone = False, producer = ProducerDone, jobs = [], jobsClosed = True,
       workers = [WorkerDone, WorkerDone], results = [], resultsClosed = True,
       allResults = [\<lparr>Items = [], Skip = 20, Err = None\<rparr>,
         \<lparr>Items = [], Skip = 0, Err = None\<rparr>, \<lparr>Items = [], Skip = 40, Err = None\<rparr>],
       collectorDone = True, caller = Returned (Inr []),
       sentJobs = [\<lparr>PageJob.Skip = 0, Top = 20\<rparr>, \<lparr>PageJob.Skip = 20, Top = 20\<rparr>,
         \<lparr>PageJob.Skip = 40, Top = 20\<rparr>],
       requests = [\<lparr>PageJob.Skip = 20, Top = 20\<rparr>, \<lparr>PageJob.Skip = 0, Top = 20\<rparr>,
         \<lparr>PageJob.Skip = 40, Top = 20\<rparr>],
       outcomes = [\<lparr>Items = [], Skip = 20, Err = None\<rparr>,
         \<lparr>Items = [], Skip = 0, Err = None\<rparr>, \<lparr>Items = [], Skip = 40, Err = None\<rparr>]\<rparr>"
    by (simp only: s_def)
  show ?thesis
    by (intro conjI) (fact r, fact h, fact h, fact h, fact h, fact j, fact m)
qed

text \<open>
  The claim as stated, for every total count of at least 0 and every page size above
  0, fails where the offset counter wraps around: for \<open>totalCount = 2^63 - 1\<close> and
  \<open>pageSize = 2^62\<close> the claim has the two requests with the offsets 0 and \<open>2^62\<close>,
  and a run whose context is not done makes a third request, with the offset \<open>-2^63\<close>.
  It also fails where the context is done: for 47 and 20 the call can return without
  a single request.
\<close>
theorem C7_counterexample_wrap_around:
  "sint (totalCount wrapCall) = 2 ^ 63 - 1 \<and> sint (pageSize wrapCall) = 2 ^ 62 \<and>
   sint (numWorkers wrapCall) = 1 \<and> pageCount_spec wrapCall = 2 \<and>
   fetchAllItemsConcurrently wrapCall wrapRun =
     Some \<lparr>ctxDone = False, producer = Sending 13835058055282163712, jobs = [],
       jobsClosed = False, workers = [Ranging], results = [], resultsClosed = False,
       allResults = [\<lparr>Items = [], Skip = 0, Err = None\<rparr>,
         \<lparr>Items = [], Skip = 4611686018427387904, Err = None\<rparr>,
         \<lparr>Items = [], Skip = 9223372036854775808, Err = None\<rparr>],
       collectorDone = False, caller = WaitWorkers,
       sentJobs = [\<lparr>PageJob.Skip = 0, Top = 4611686018427387904\<rparr>,
         \<lparr>PageJob.Skip = 4611686018427387904, Top = 4611686018427387904\<rparr>,
         \<lparr>PageJob.Skip = 9223372036854775808, Top = 4611686018427387904\<rparr>],
       requests = [\<lparr>PageJob.Skip = 0, Top = 4611686018427387904\<rparr>,
         \<lparr>PageJob.Skip = 4611686018427387904, Top = 4611686018427387904\<rparr>,
         \<lparr>PageJob.Skip = 9223372036854775808, Top = 4611686018427387904\<rparr>],
       outcomes = [\<lparr>Items = [], Skip = 0, Err = None\<rparr>,
         \<lparr>Items = [], Skip = 4611686018427387904, Err = None\<rparr>,
         \<lparr>Items = [], Skip = 9223372036854775808, Err = None\<rparr>]\<rparr> \<and>
   sint (9223372036854775808 :: goint) = - (2 ^ 63) \<and>
   fetchAllItemsConcurrently call47 cancelledRun =
     Some \<lparr>ctxDone = True, producer = ProducerDone, jobs = [], jobsClosed = True,
       workers = [WorkerDone, WorkerDone], results = [], resultsClosed = True,
       allResults = [], collectorDone = True, caller = Returned (Inr []),
       sentJobs = [], requests = [], outcomes = []\<rparr>"
proof (intro conjI)
  show "sint (totalCount wrapCall) = 2 ^ 63 - 1" by (simp add: wrapCall_def)
  show "sint (pageSize wrapCall) = 2 ^ 62" by (simp add: wrapCall_def)
  show "sint (numWorkers wrapCall) = 1" by (simp add: wrapCall_def)
  show "pageCount_spec wrapCall = 2" by (simp add: wrapCall_def pageCount_spec_def)
  show "fetchAllItemsConcurrently wrapCall wrapRun =
     Some \<lparr>ctxDone = False, producer = Sending 13835058055282163712, jobs = [],
       jobsClosed = False, workers = [Ranging], results = [], resultsClosed = False,
       allResults = [\<lparr>Items = [], Skip = 0, Err = None\<rparr>,
         \<lparr>Items = [], Skip = 4611686018427387904, Err = None\<rparr>,
         \<lparr>Items = [], Skip = 9223372036854775808, Err = None\<rparr>],
       collectorDone = False, caller = WaitWorkers,
       sentJobs = [\<lparr>PageJob.Skip = 0, Top = 4611686018427387904\<rparr>,
         \<lparr>PageJob.Skip = 4611686018427387904, Top = 4611686018427387904\<rparr>,
         \<lparr>PageJob.Skip = 9223372036854775808, Top = 4611686018427387904\<rparr>],
       requests = [\<lparr>PageJob.Skip = 0, Top = 4611686018427387904\<rparr>,
         \<lparr>PageJob.Skip = 4611686018427387904, Top = 4611686018427387904\<rparr>,
         \<lparr>PageJob.Skip = 9223372036854775808, Top = 4611686018427387904\<rparr>],
       outcomes = [\<lparr>Items = [], Skip = 0, Err = None\<rparr>,
         \<lparr>Items = [], Skip = 4611686018427387904, Err = None\<rparr>,
         \<lparr>Items = [], Skip = 9223372036854775808, Err = None\<rparr>]\<rparr>"
    by (simp add: fetch_defs wrapCall_def wrapRun_def pageRound_def emptyPage_def)
  show "sint (9223372036854775808 :: goint) = - (2 ^ 63)" by simp
  show "fetchAllItemsConcurrently call47 cancelledRun =
     Some \<lparr>ctxDone = True, producer = ProducerDone, jobs = [], jobsClosed = True,
       workers = [WorkerDone, WorkerDone], results = [], resultsClosed = True,
       allResults = [], collectorDone = True, caller = Returned (Inr []),
       sentJobs = [], requests = [], outcomes = []\<rparr>"
    by (simp add: fetch_defs call47_def cancelledRun_def emptyPage_def)
qed

section \<open>Properties of the create batch\<close>


lemma insertRow_rows:
  "rows (insertRow s p) =
   rows s @ (if Some (Handle p) \<in> set (map row_handle (rows s)) then []
             else [\<lparr>row_id = nextID s, row_title = Title p, row_handle = Some (Handle p)\<rparr>])"
  by (simp add: insertRow_def)

lemma foldl_insertRow_rows:
  "\<exists>news. rows (foldl insertRow s ps) = rows s @ news \<and>
     distinct (map row_handle news) \<and>
     set (map row_handle news) \<subseteq> Some ` Handle ` set ps \<and>
     set (map row_handle news) \<inter> set (map row_handle (rows s)) = {}"
proof (induction ps arbitrary: s)
  case Nil
  show ?case by simp
next
  case (Cons p ps)
  from Cons.IH [of "insertRow s p"] obtain news where
    n: "rows (foldl insertRow (insertRow s p) ps) = rows (insertRow s p) @ news"
      "distinct (map row_handle news)"
      "set (map row_handle news) \<subseteq> Some ` Handle ` set ps"
      "set (map row_handle news) \<inter> set (map row_handle (rows (insertRow s p))) = {}"
    by blast
  show ?case
  proof (cases "Some (Handle p) \<in> set (map row_handle (rows s))")
    case True
    then have "insertRow s p = s" by (simp add: insertRow_def)
    with n show ?thesis by auto
  next
    case False
    let ?r = "\<lparr>row_id = nextID s, row_title = Title p, row_handle = Some (Handle p)\<rparr>"
    from False have r: "rows (insertRow s p) = rows s @ [?r]" by (simp add: insertRow_rows)
    have "rows (foldl insertRow s (p # ps)) = rows s @ (?r # news)"
      using n(1) r by simp
    moreover have "distinct (map row_handle (?r # news))"
      using n(2,4) r by auto
    moreover have "set (map row_handle (?r # news)) \<subseteq> Some ` Handle ` set (p # ps)"
      using n(3) by auto
    moreover have "set (map row_handle (?r # news)) \<inter> set (map row_handle (rows s)) = {}"
      using n(4) r False by auto
    ultimately show ?thesis by blast
  qed
qed

lemma foldl_insertRow_length:
  "length (rows (foldl insertRow s ps)) \<le> length (rows s) + card (Handle ` set ps)"
proof -
  from foldl_insertRow_rows [of s ps] obtain news where
    n: "rows (foldl insertRow s ps) = rows s @ news" "distinct (map row_handle news)"
      "set (map row_handle news) \<subseteq> Some ` Handle ` set ps"
    by blast
  have "length news = card (set (map row_handle news))"
    using n(2) by (metis distinct_card length_map)
  also have "\<dots> \<le> card (Some ` Handle ` set ps)"
    using n(3) by (intro card_mono) auto
  also have "\<dots> \<le> card (Handle ` set ps)"
    by (intro card_image_le) auto
  finally show ?thesis using n(1) by simp
qed

lemma repeated_handle_card:
  assumes "\<not> distinct (map Handle ps)"
  shows "card (Handle ` set ps) < length ps"
proof -
  have "card (set (map Handle ps)) \<le> length (map Handle ps)" by (rule card_length)
  moreover have "card (set (map Handle ps)) \<noteq> length (map Handle ps)"
    using assms card_distinct by blast
  ultimately show ?thesis by simp
qed

lemma generateHandle_ToLower:
  "ToLower lw t1 = ToLower lw t2 \<Longrightarrow> generateHandle lw t1 = generateHandle lw t2"
  by (simp add: generateHandle_def)

lemma duplicate_new_records_batch:
  "validItem i1 \<and> validItem i2 \<and>
   normalizeTitle lw (fst (itemName_of i1)) = normalizeTitle lw (fst (itemName_of i2)) \<and>
   buildProductMap lw ps (normalizeTitle lw (fst (itemName_of i1))) = None \<longrightarrow>
     itemsToCreate (classify lw ps (xs @ i1 # ys @ i2 # zs)) =
       itemsToCreate (classify lw ps xs) @
       \<lparr>Title = fst (itemName_of i1), Handle = generateHandle lw (fst (itemName_of i1))\<rparr> #
       itemsToCreate (classify lw ps ys) @
       \<lparr>Title = fst (itemName_of i2), Handle = generateHandle lw (fst (itemName_of i2))\<rparr> #
       itemsToCreate (classify lw ps zs) \<and>
     CompareAndSync lw (Inr ps) (xs @ i1 # ys @ i2 # zs) =
       Inr (dispatch (classify lw ps (xs @ i1 # ys @ i2 # zs))) \<and>
     Created (dispatch (classify lw ps (xs @ i1 # ys @ i2 # zs))) =
       int (length (itemsToCreate (classify lw ps (xs @ i1 # ys @ i2 # zs)))) \<and>
     (ToLower lw (fst (itemName_of i1)) = ToLower lw (fst (itemName_of i2)) \<longrightarrow>
        generateHandle lw (fst (itemName_of i1)) = generateHandle lw (fst (itemName_of i2))) \<and>
     (generateHandle lw (fst (itemName_of i1)) = generateHandle lw (fst (itemName_of i2)) \<longrightarrow>
        (\<exists>s'. CreateProductsBatch NoFault s
                (itemsToCreate (classify lw ps (xs @ i1 # ys @ i2 # zs))) = Inr s' \<and>
              length (rows s') <
                length (rows s) + length (itemsToCreate (classify lw ps (xs @ i1 # ys @ i2 # zs)))))"
proof (intro impI)
  let ?t1 = "fst (itemName_of i1)" and ?t2 = "fst (itemName_of i2)"
  let ?items = "xs @ i1 # ys @ i2 # zs"
  let ?batch = "itemsToCreate (classify lw ps ?items)"
  let ?c1 = "\<lparr>Title = ?t1, Handle = generateHandle lw ?t1\<rparr>"
  let ?c2 = "\<lparr>Title = ?t2, Handle = generateHandle lw ?t2\<rparr>"
  assume a: "validItem i1 \<and> validItem i2 \<and>
    normalizeTitle lw ?t1 = normalizeTitle lw ?t2 \<and>
    buildProductMap lw ps (normalizeTitle lw ?t1) = None"
  then have k: "normalizeTitle lw ?t1 = normalizeTitle lw ?t2"
    and none1: "buildProductMap lw ps (normalizeTitle lw ?t1) = None"
    by blast+
  have none2: "buildProductMap lw ps (normalizeTitle lw ?t2) = None"
    using none1 by (simp only: k)
  have batch: "?batch =
      itemsToCreate (classify lw ps xs) @ ?c1 # itemsToCreate (classify lw ps ys) @
      ?c2 # itemsToCreate (classify lw ps zs)"
    using a none2
    by (simp add: classify_itemsToCreate validTitles_append validTitles_Cons)
  have run: "CompareAndSync lw (Inr ps) ?items = Inr (dispatch (classify lw ps ?items))"
    by (simp add: CompareAndSync_def)
  have lower: "ToLower lw ?t1 = ToLower lw ?t2 \<longrightarrow>
      generateHandle lw ?t1 = generateHandle lw ?t2"
    by (rule impI) (rule generateHandle_ToLower)
  have skip: "generateHandle lw ?t1 = generateHandle lw ?t2 \<longrightarrow>
      (\<exists>s'. CreateProductsBatch NoFault s ?batch = Inr s' \<and>
         length (rows s') < length (rows s) + length ?batch)"
  proof
    assume h: "generateHandle lw ?t1 = generateHandle lw ?t2"
    have "\<not> distinct (map Handle ?batch)"
      unfolding batch using h by simp
    then have "card (Handle ` set ?batch) < length ?batch"
      by (rule repeated_handle_card)
    with foldl_insertRow_length [of s ?batch]
    have "length (rows (foldl insertRow s ?batch)) < length (rows s) + length ?batch"
      by linarith
    moreover have "?batch \<noteq> []" unfolding batch by simp
    ultimately show "\<exists>s'. CreateProductsBatch NoFault s ?batch = Inr s' \<and>
         length (rows s') < length (rows s) + length ?batch"
      by (simp add: CreateProductsBatch_def)
  qed
  have created: "Created (dispatch (classify lw ps ?items)) = int (length ?batch)"
    by (rule dispatch_Created)
  show "?batch =
       itemsToCreate (classify lw ps xs) @ ?c1 # itemsToCreate (classify lw ps ys) @
       ?c2 # itemsToCreate (classify lw ps zs) \<and>
     CompareAndSync lw (Inr ps) ?items = Inr (dispatch (classify lw ps ?items)) \<and>
     Created (dispatch (classify lw ps ?items)) = int (length ?batch) \<and>
     (ToLower lw ?t1 = ToLower lw ?t2 \<longrightarrow>
        generateHandle lw ?t1 = generateHandle lw ?t2) \<and>
     (generateHandle lw ?t1 = generateHandle lw ?t2 \<longrightarrow>
        (\<exists>s'. CreateProductsBatch NoFault s ?batch = Inr s' \<and>
              length (rows s') < length (rows s) + length ?batch))"
    by (intro conjI) (fact batch, fact run, fact created, fact lower, fact skip)
qed

text \<open>
  C10, as amended. The lookup table is not extended while the remote records are
  classified: when two valid remote records of one input have the same normalized
  title and the key has no persisted match, both are appended to the create batch,
  each between the new records of the stretches before, between and after them, and
  both are counted in \<open>createdCount\<close>, which is the size of the batch. Their handles
  are identical when the two titles lowercase to the same string, but not in general:
  "A" and " A" have the normalized title "a" and the handles "a" and "-a". When the
  handles are identical, a batch insert that succeeds inserts fewer rows than
  \<open>createdCount\<close> says, because the second record is skipped on the conflict.
\<close>
theorem C10_duplicate_new_records:
  "(validItem i1 \<and> validItem i2 \<and>
   normalizeTitle lw (fst (itemName_of i1)) = normalizeTitle lw (fst (itemName_of i2)) \<and>
   buildProductMap lw ps (normalizeTitle lw (fst (itemName_of i1))) = None \<longrightarrow>
     itemsToCreate (classify lw ps (xs @ i1 # ys @ i2 # zs)) =
       itemsToCreate (classify lw ps xs) @
       \<lparr>Title = fst (itemName_of i1), Handle = generateHandle lw (fst (itemName_of i1))\<rparr> #
       itemsToCreate (classify lw ps ys) @
       \<lparr>Title = fst (itemName_of i2), Handle = generateHandle lw (fst (itemName_of i2))\<rparr> #
       itemsToCreate (classify lw ps zs) \<and>
     CompareAndSync lw (Inr ps) (xs @ i1 # ys @ i2 # zs) =
       Inr (dispatch (classify lw ps (xs @ i1 # ys @ i2 # zs))) \<and>
     Created (dispatch (classify lw ps (xs @ i1 # ys @ i2 # zs))) =
       int (length (itemsToCreate (classify lw ps (xs @ i1 # ys @ i2 # zs)))) \<and>
     (ToLower lw (fst (itemName_of i1)) = ToLower lw (fst (itemName_of i2)) \<longrightarrow>
        generateHandle lw (fst (itemName_of i1)) = generateHandle lw (fst (itemName_of i2))) \<and>
     (generateHandle lw (fst (itemName_of i1)) = generateHandle lw (fst (itemName_of i2)) \<longrightarrow>
        (\<exists>s'. CreateProductsBatch NoFault s
                (itemsToCreate (classify lw ps (xs @ i1 # ys @ i2 # zs))) = Inr s' \<and>
              length (rows s') <
                length (rows s) + length (itemsToCreate (classify lw ps (xs @ i1 # ys @ i2 # zs))))))
   \<and>
   normalizeTitle toLowerLatin1 (runes ''A'') = normalizeTitle toLowerLatin1 (runes '' A'') \<and>
   generateHandle toLowerLatin1 (runes ''A'') = runes ''a'' \<and>
   generateHandle toLowerLatin1 (runes '' A'') = runes ''-a''"
proof (intro conjI)
  show "validItem i1 \<and> validItem i2 \<and>
   normalizeTitle lw (fst (itemName_of i1)) = normalizeTitle lw (fst (itemName_of i2)) \<and>
   buildProductMap lw ps (normalizeTitle lw (fst (itemName_of i1))) = None \<longrightarrow>
     itemsToCreate (classify lw ps (xs @ i1 # ys @ i2 # zs)) =
       itemsToCreate (classify lw ps xs) @
       \<lparr>Title = fst (itemName_of i1), Handle = generateHandle lw (fst (itemName_of i1))\<rparr> #
       itemsToCreate (classify lw ps ys) @
       \<lparr>Title = fst (itemName_of i2), Handle = generateHandle lw (fst (itemName_of i2))\<rparr> #
       itemsToCreate (classify lw ps zs) \<and>
     CompareAndSync lw (Inr ps) (xs @ i1 # ys @ i2 # zs) =
       Inr (dispatch (classify lw ps (xs @ i1 # ys @ i2 # zs))) \<and>
     Created (dispatch (classify lw ps (xs @ i1 # ys @ i2 # zs))) =
       int (length (itemsToCreate (classify lw ps (xs @ i1 # ys @ i2 # zs)))) \<and>
     (ToLower lw (fst (itemName_of i1)) = ToLower lw (fst (itemName_of i2)) \<longrightarrow>
        generateHandle lw (fst (itemName_of i1)) = generateHandle lw (fst (itemName_of i2))) \<and>
     (generateHandle lw (fst (itemName_of i1)) = generateHandle lw (fst (itemName_of i2)) \<longrightarrow>
        (\<exists>s'. CreateProductsBatch NoFault s
                (itemsToCreate (classify lw ps (xs @ i1 # ys @ i2 # zs))) = Inr s' \<and>
              length (rows s') <
                length (rows s) + length (itemsToCreate (classify lw ps (xs @ i1 # ys @ i2 # zs)))))"
    by (rule duplicate_new_records_batch)
next
  show "normalizeTitle toLowerLatin1 (runes ''A'') = normalizeTitle toLowerLatin1 (runes '' A'')"
    by (simp add: scenario_defs)
next
  show "generateHandle toLowerLatin1 (runes ''A'') = runes ''a''"
    by (simp add: scenario_defs)
next
  show "generateHandle toLowerLatin1 (runes '' A'') = runes ''-a''"
    by (simp add: scenario_defs)
qed

text \<open>
  "Product A" and "PRODUCT A" against an empty store: both are in the create batch
  with the handle "product-a", 2 are reported as created, fewer than 2 rows are
  inserted.
\<close>
theorem C10_duplicate_new_records_witness:
  "CompareAndSync toLowerLatin1 (Inr []) [namedItem ''Product A'', namedItem ''PRODUCT A''] =
     Inr \<lparr>Created = 2, Updated = 0, Unchanged = 0, Errors = []\<rparr> \<and>
   itemsToCreate (classify toLowerLatin1 [] [namedItem ''Product A'', namedItem ''PRODUCT A'']) =
     [\<lparr>Title = runes ''Product A'', Handle = runes ''product-a''\<rparr>,
      \<lparr>Title = runes ''PRODUCT A'', Handle = runes ''product-a''\<rparr>] \<and>
   (\<exists>s'. CreateProductsBatch NoFault emptyStore
       (itemsToCreate (classify toLowerLatin1 [] [namedItem ''Product A'', namedItem ''PRODUCT A''])) =
         Inr s' \<and> length (rows s') < 2)"
proof -
  let ?i1 = "namedItem ''Product A''" and ?i2 = "namedItem ''PRODUCT A''"
  have h: "validItem ?i1 \<and> validItem ?i2 \<and>
      normalizeTitle toLowerLatin1 (fst (itemName_of ?i1)) =
        normalizeTitle toLowerLatin1 (fst (itemName_of ?i2)) \<and>
      buildProductMap toLowerLatin1 [] (normalizeTitle toLowerLatin1 (fst (itemName_of ?i1))) = None"
    by (simp add: scenario_defs)
  have g: "generateHandle toLowerLatin1 (fst (itemName_of ?i1)) =
      generateHandle toLowerLatin1 (fst (itemName_of ?i2))"
    by (simp add: scenario_defs)
  have b: "itemsToCreate (classify toLowerLatin1 [] [?i1, ?i2]) =
     [\<lparr>Title = runes ''Product A'', Handle = runes ''product-a''\<rparr>,
      \<lparr>Title = runes ''PRODUCT A'', Handle = runes ''product-a''\<rparr>]"
    by (simp add: scenario_defs)
  have r: "CompareAndSync toLowerLatin1 (Inr []) [?i1, ?i2] =
     Inr \<lparr>Created = 2, Updated = 0, Unchanged = 0, Errors = []\<rparr>"
    by (simp add: scenario_defs)
  note C10_duplicate_new_records [of ?i1 ?i2 toLowerLatin1 "[]" "[]" "[]" "[]" emptyStore,
      THEN conjunct1, rule_format, OF h]
  then have "generateHandle toLowerLatin1 (fst (itemName_of ?i1)) =
        generateHandle toLowerLatin1 (fst (itemName_of ?i2)) \<longrightarrow>
      (\<exists>s'. CreateProductsBatch NoFault emptyStore
        (itemsToCreate (classify toLowerLatin1 [] ([] @ ?i1 # [] @ ?i2 # []))) = Inr s' \<and>
      length (rows s') < length (rows emptyStore) +
        length (itemsToCreate (classify toLowerLatin1 [] ([] @ ?i1 # [] @ ?i2 # []))))"
    by (elim conjE)
  from this [rule_format, OF g]
  have s: "\<exists>s'. CreateProductsBatch NoFault emptyStore
        (itemsToCreate (classify toLowerLatin1 [] [?i1, ?i2])) = Inr s' \<and> length (rows s') < 2"
    by (simp add: b emptyStore_def numeral_2_eq_2)
  show ?thesis
    by (intro conjI) (fact r, fact b, fact s)
qed

text \<open>
  The claim as stated has the two records in the batch "with identical handles", and
  the insert skipping the second. The titles "A" and " A" have the same normalized
  title, since the key is trimmed, but the handles "a" and "-a", since the handle
  turns the space into a hyphen: both rows are inserted.
\<close>
theorem C10_counterexample_handles_differ:
  "normalizeTitle toLowerLatin1 (runes ''A'') = normalizeTitle toLowerLatin1 (runes '' A'') \<and>
   itemsToCreate (classify toLowerLatin1 [] [namedItem ''A'', namedItem '' A'']) =
     [\<lparr>Title = runes ''A'', Handle = runes ''a''\<rparr>,
      \<lparr>Title = runes '' A'', Handle = runes ''-a''\<rparr>] \<and>
   runes ''a'' \<noteq> runes ''-a'' \<and>
   CompareAndSync toLowerLatin1 (Inr []) [namedItem ''A'', namedItem '' A''] =
     Inr \<lparr>Created = 2, Updated = 0, Unchanged = 0, Errors = []\<rparr> \<and>
   CreateProductsBatch NoFault emptyStore
       (itemsToCreate (classify toLowerLatin1 [] [namedItem ''A'', namedItem '' A''])) =
     Inr \<lparr>rows = [\<lparr>row_id = 1, row_title = runes ''A'', row_handle = Some (runes ''a'')\<rparr>,
                 \<lparr>row_id = 2, row_title = runes '' A'', row_handle = Some (runes ''-a'')\<rparr>],
          nextID = 3\<rparr>"
  by (simp add: scenario_defs CreateProductsBatch_def insertRow_def emptyStore_def)

section \<open>Idempotence of the sync pass\<close>


lemmas store_defs = syncPass_def GetAllProducts_def scanRow_def applyWrites_def
  insertRow_def updateRow_def CreateProductsBatch_def UpdateProductsBatch_def emptyStore_def

lemma applyWrites_snoc: "applyWrites s (ws @ [w]) = applyWrite (applyWrites s ws) w"
  by (simp add: applyWrites_def)

lemma applyWrites_Nil: "applyWrites s [] = s"
  by (simp add: applyWrites_def)

lemma CreateProductsBatch_applyWrites:
  "CreateProductsBatch NoFault s cs = Inr (applyWrites s (map Insert cs))"
proof -
  have "foldl applyWrite s (map Insert cs) = foldl insertRow s cs"
    by (induction cs arbitrary: s) simp_all
  then show ?thesis
    by (cases cs) (simp_all add: CreateProductsBatch_def applyWrites_def)
qed

lemma UpdateProductsBatch_applyWrites:
  "UpdateProductsBatch NoFault s us = Inr (applyWrites s (map Update us))"
proof -
  have "foldl applyWrite s (map Update us) = foldl updateRow s us"
    by (induction us arbitrary: s) simp_all
  then show ?thesis
    by (cases us) (simp_all add: UpdateProductsBatch_def applyWrites_def)
qed

lemma sequential_schedule:
  "map Insert (itemsToCreate st) @ map Update (itemsToUpdate st) \<in> schedules st"
proof -
  have "xs @ ys \<in> shuffles xs ys" for xs ys :: "dbwrite list"
    by (induction xs) (simp_all add: Cons_in_shuffles_leftI)
  then show ?thesis by (simp add: schedules_def)
qed

lemma schedInv_init:
  assumes "storeOK lw s"
  shows "schedInv lw V s s"
  using assms unfolding schedInv_def storeOK_def list_all_iff
  by (intro conjI) (simp_all, fastforce+)

lemma same_id_same_row:
  "distinct (map row_id xs) \<Longrightarrow> a \<in> set xs \<Longrightarrow> b \<in> set xs \<Longrightarrow> row_id a = row_id b \<Longrightarrow> a = b"
  by (simp add: distinct_map inj_on_def)

lemma storeOK_ids:
  "storeOK lw s \<Longrightarrow> r \<in> set (rows s) \<Longrightarrow> row_id r < nextID s"
  by (simp add: storeOK_def list_all_iff)

lemma updateRow_rows:
  "rows (updateRow x u) =
   map (\<lambda>r. if row_id r = ID u
              then r\<lparr>row_title := Title u, row_handle := Some (Handle u)\<rparr> else r) (rows x)"
  by (simp add: updateRow_def)

lemma updateRow_nextID: "nextID (updateRow x u) = nextID x"
  by (simp add: updateRow_def)

lemma schedInv_update:
  assumes ok: "storeOK lw s"
    and inv: "schedInv lw V s x"
    and adm: "admissible lw V s (Update u)"
  shows "schedInv lw V s (updateRow x u)"
proof -
  let ?f = "\<lambda>r. if row_id r = ID u
              then r\<lparr>row_title := Title u, row_handle := Some (Handle u)\<rparr> else r"
  have rows': "rows (updateRow x u) = map ?f (rows x)" by (rule updateRow_rows)
  from adm obtain r0u where r0u: "r0u \<in> set (rows s)" "row_id r0u = ID u"
      "rowKey lw r0u = normalizeTitle lw (Title u)"
    and tu: "Title u \<in> V" and hu: "Handle u = generateHandle lw (Title u)"
    by auto
  have idu: "ID u < nextID s"
    using storeOK_ids [OF ok r0u(1)] r0u(2) by simp
  have ids: "distinct (map row_id (rows s))"
    using ok by (simp add: storeOK_def)
  from inv have
    i1: "distinct (map row_id (rows x))" and
    i2: "\<forall>r\<in>set (rows x). row_id r < nextID x" and
    i2b: "nextID s \<le> nextID x" and
    i3: "\<forall>r\<in>set (rows x). row_id r < nextID s \<longrightarrow>
        (\<exists>r0\<in>set (rows s). row_id r0 = row_id r \<and> rowKey lw r0 = rowKey lw r \<and>
           (r = r0 \<or> syncedRow lw V r))" and
    i4: "\<forall>r\<in>set (rows x). nextID s \<le> row_id r \<longrightarrow>
        syncedRow lw V r \<and> rowKey lw r \<notin> rowKey lw ` set (rows s)" and
    i5: "distinct (map (rowKey lw) (rows x))" and
    i6: "\<forall>r0\<in>set (rows s). \<exists>r\<in>set (rows x). row_id r = row_id r0"
    unfolding schedInv_def by blast+
  have fid: "row_id (?f r) = row_id r" for r by simp
  have fkey: "rowKey lw (?f r) = rowKey lw r" if r: "r \<in> set (rows x)" for r
  proof (cases "row_id r = ID u")
    case True
    with i3 r idu obtain r0 where r0: "r0 \<in> set (rows s)" "row_id r0 = row_id r"
        "rowKey lw r0 = rowKey lw r"
      by auto
    have "r0 = r0u"
      using same_id_same_row [OF ids r0(1) r0u(1)] r0(2) r0u(2) True by simp
    with r0(3) r0u(3) True show ?thesis by (simp add: rowKey_def)
  next
    case False
    then show ?thesis by simp
  qed
  have fsync: "syncedRow lw V (?f r)" if "row_id r = ID u" for r
    using that tu hu by (simp add: syncedRow_def)
  have "map row_id (map ?f (rows x)) = map row_id (rows x)"
    by (simp add: comp_def if_distrib [of row_id])
  then have s1: "distinct (map row_id (rows (updateRow x u)))"
    using i1 by (simp only: rows')
  have s2: "\<forall>r\<in>set (rows (updateRow x u)). row_id r < nextID (updateRow x u)"
    using i2 by (auto simp: rows' updateRow_nextID)
  have s2b: "nextID s \<le> nextID (updateRow x u)"
    using i2b by (simp add: updateRow_nextID)
  have s3: "\<forall>r\<in>set (rows (updateRow x u)). row_id r < nextID s \<longrightarrow>
        (\<exists>r0\<in>set (rows s). row_id r0 = row_id r \<and> rowKey lw r0 = rowKey lw r \<and>
           (r = r0 \<or> syncedRow lw V r))"
  proof (intro ballI impI)
    fix r' assume r': "r' \<in> set (rows (updateRow x u))" and lt: "row_id r' < nextID s"
    from r' obtain r where r: "r \<in> set (rows x)" "r' = ?f r"
      by (auto simp: rows')
    from lt r(2) have "row_id r < nextID s" by (simp split: if_splits)
    with i3 r(1) obtain r0 where r0: "r0 \<in> set (rows s)" "row_id r0 = row_id r"
        "rowKey lw r0 = rowKey lw r" "r = r0 \<or> syncedRow lw V r"
      by blast
    show "\<exists>r0\<in>set (rows s). row_id r0 = row_id r' \<and> rowKey lw r0 = rowKey lw r' \<and>
           (r' = r0 \<or> syncedRow lw V r')"
    proof (cases "row_id r = ID u")
      case True
      have "row_id r0 = row_id r'" using r0(2) r(2) fid [of r] by simp
      moreover have "rowKey lw r0 = rowKey lw r'" using r0(3) fkey [OF r(1)] r(2) by simp
      moreover have "syncedRow lw V r'" using fsync [OF True] r(2) by simp
      ultimately show ?thesis using r0(1) by blast
    next
      case False
      then have "r' = r" using r(2) by simp
      with r0 show ?thesis by blast
    qed
  qed
  have s4: "\<forall>r\<in>set (rows (updateRow x u)). nextID s \<le> row_id r \<longrightarrow>
        syncedRow lw V r \<and> rowKey lw r \<notin> rowKey lw ` set (rows s)"
  proof (intro ballI impI)
    fix r' assume r': "r' \<in> set (rows (updateRow x u))" and ge: "nextID s \<le> row_id r'"
    from r' obtain r where r: "r \<in> set (rows x)" "r' = ?f r"
      by (auto simp: rows')
    from ge r(2) have g: "nextID s \<le> row_id r" by (simp split: if_splits)
    with idu have "row_id r \<noteq> ID u" by simp
    then have "r' = r" using r(2) by simp
    with i4 r(1) g show "syncedRow lw V r' \<and> rowKey lw r' \<notin> rowKey lw ` set (rows s)"
      by blast
  qed
  have "map (rowKey lw) (map ?f (rows x)) = map (rowKey lw) (rows x)"
    using fkey by (simp add: comp_def cong: map_cong)
  then have s5: "distinct (map (rowKey lw) (rows (updateRow x u)))"
    using i5 by (simp only: rows')
  have s6: "\<forall>r0\<in>set (rows s). \<exists>r\<in>set (rows (updateRow x u)). row_id r = row_id r0"
  proof
    fix r0 assume "r0 \<in> set (rows s)"
    with i6 obtain r where r: "r \<in> set (rows x)" "row_id r = row_id r0" by blast
    then have "?f r \<in> set (rows (updateRow x u))" by (simp add: rows')
    moreover have "row_id (?f r) = row_id r0" using r(2) by simp
    ultimately show "\<exists>r\<in>set (rows (updateRow x u)). row_id r = row_id r0" by blast
  qed
  show ?thesis
    unfolding schedInv_def using s1 s2 s2b s3 s4 s5 s6 by blast
qed

lemma schedInv_D:
  assumes "schedInv lw V s x"
  shows "distinct (map row_id (rows x))"
    and "\<forall>r\<in>set (rows x). row_id r < nextID x"
    and "nextID s \<le> nextID x"
    and "\<forall>r\<in>set (rows x). row_id r < nextID s \<longrightarrow>
        (\<exists>r0\<in>set (rows s). row_id r0 = row_id r \<and> rowKey lw r0 = rowKey lw r \<and>
           (r = r0 \<or> syncedRow lw V r))"
    and "\<forall>r\<in>set (rows x). nextID s \<le> row_id r \<longrightarrow>
        syncedRow lw V r \<and> rowKey lw r \<notin> rowKey lw ` set (rows s)"
    and "distinct (map (rowKey lw) (rows x))"
    and "\<forall>r0\<in>set (rows s). \<exists>r\<in>set (rows x). row_id r = row_id r0"
  using assms unfolding schedInv_def by blast+

text \<open>A row of the table that has the key of an insert of the pass holds its title.\<close>

lemma row_with_new_key:
  assumes injk: "inj_on (normalizeTitle lw) V"
    and inv: "schedInv lw V s x"
    and adm: "admissible lw V s (Insert c)"
    and r: "r \<in> set (rows x)" "rowKey lw r = normalizeTitle lw (Title c)"
  shows "row_title r = Title c \<and> row_handle r = Some (Handle c)"
proof (cases "row_id r < nextID s")
  case True
  with schedInv_D(4) [OF inv] r(1) obtain r0 where
    "r0 \<in> set (rows s)" "rowKey lw r0 = rowKey lw r" by blast
  with adm r(2) show ?thesis by auto
next
  case False
  with schedInv_D(5) [OF inv] r(1) have sy: "syncedRow lw V r" by auto
  then have "row_title r \<in> V" by (simp add: syncedRow_def)
  moreover from adm have "Title c \<in> V" by simp
  moreover have "normalizeTitle lw (row_title r) = normalizeTitle lw (Title c)"
    using r(2) by (simp add: rowKey_def)
  ultimately have "row_title r = Title c" using injk by (simp add: inj_on_def)
  with sy adm show ?thesis by (simp add: syncedRow_def)
qed

text \<open>A row of the table that has the handle of an insert of the pass holds its title.\<close>

lemma row_with_new_handle:
  assumes injg: "inj_on (generateHandle lw) V"
    and inv: "schedInv lw V s x"
    and adm: "admissible lw V s (Insert c)"
    and r: "r \<in> set (rows x)" "row_handle r = Some (Handle c)"
  shows "row_title r = Title c"
proof -
  have sy: "syncedRow lw V r"
  proof (cases "row_id r < nextID s")
    case True
    with schedInv_D(4) [OF inv] r(1) obtain r0 where
      r0: "r0 \<in> set (rows s)" "r = r0 \<or> syncedRow lw V r" by blast
    from adm have "Some (Handle c) \<notin> set (map row_handle (rows s))" by auto
    with r0(1) r(2) have "r \<noteq> r0" by force
    with r0(2) show ?thesis by simp
  next
    case False
    with schedInv_D(5) [OF inv] r(1) show ?thesis by auto
  qed
  then have "row_title r \<in> V" and "row_handle r = Some (generateHandle lw (row_title r))"
    by (simp_all add: syncedRow_def)
  moreover from adm have "Title c \<in> V" and "Handle c = generateHandle lw (Title c)"
    by simp_all
  ultimately have "generateHandle lw (row_title r) = generateHandle lw (Title c)"
    using r(2) by simp
  with \<open>row_title r \<in> V\<close> \<open>Title c \<in> V\<close> injg show ?thesis
    by (simp add: inj_on_def)
qed

lemma schedInv_insert:
  assumes injk: "inj_on (normalizeTitle lw) V"
    and inv: "schedInv lw V s x"
    and adm: "admissible lw V s (Insert c)"
  shows "schedInv lw V s (insertRow x c)"
proof (cases "Some (Handle c) \<in> set (map row_handle (rows x))")
  case True
  then have "insertRow x c = x" by (simp add: insertRow_def)
  with inv show ?thesis by simp
next
  case False
  let ?rn = "\<lparr>row_id = nextID x, row_title = Title c, row_handle = Some (Handle c)\<rparr>"
  from False have rows': "rows (insertRow x c) = rows x @ [?rn]"
    and next': "nextID (insertRow x c) = nextID x + 1"
    by (simp_all add: insertRow_def)
  note i = schedInv_D [OF inv]
  from adm have tc: "Title c \<in> V" and hc: "Handle c = generateHandle lw (Title c)"
    and newkey: "\<forall>r\<in>set (rows s). rowKey lw r \<noteq> normalizeTitle lw (Title c)"
    by simp_all
  have s1: "distinct (map row_id (rows (insertRow x c)))"
    using i(1) i(2) by (auto simp: rows')
  have s2: "\<forall>r\<in>set (rows (insertRow x c)). row_id r < nextID (insertRow x c)"
    using i(2) by (auto simp: rows' next')
  have s2b: "nextID s \<le> nextID (insertRow x c)"
    using i(3) by (simp add: next')
  have s3: "\<forall>r\<in>set (rows (insertRow x c)). row_id r < nextID s \<longrightarrow>
        (\<exists>r0\<in>set (rows s). row_id r0 = row_id r \<and> rowKey lw r0 = rowKey lw r \<and>
           (r = r0 \<or> syncedRow lw V r))"
    using i(4) i(3) by (auto simp: rows')
  have syn: "syncedRow lw V ?rn"
    using tc hc by (simp add: syncedRow_def)
  have knew: "rowKey lw ?rn \<notin> rowKey lw ` set (rows s)"
    using newkey by (auto simp: rowKey_def)
  have s4: "\<forall>r\<in>set (rows (insertRow x c)). nextID s \<le> row_id r \<longrightarrow>
        syncedRow lw V r \<and> rowKey lw r \<notin> rowKey lw ` set (rows s)"
    using i(5) syn knew by (auto simp: rows')
  have "rowKey lw ?rn \<notin> set (map (rowKey lw) (rows x))"
  proof
    assume "rowKey lw ?rn \<in> set (map (rowKey lw) (rows x))"
    then obtain r where r: "r \<in> set (rows x)" "rowKey lw r = normalizeTitle lw (Title c)"
      by (auto simp: rowKey_def)
    from row_with_new_key [OF injk inv adm r] have "row_handle r = Some (Handle c)" by simp
    with r(1) False show False by force
  qed
  then have s5: "distinct (map (rowKey lw) (rows (insertRow x c)))"
    using i(6) by (simp add: rows')
  have s6: "\<forall>r0\<in>set (rows s). \<exists>r\<in>set (rows (insertRow x c)). row_id r = row_id r0"
    using i(7) by (auto simp: rows')
  show ?thesis
    unfolding schedInv_def using s1 s2 s2b s3 s4 s5 s6 by blast
qed

lemma writesDone_init: "writesDone s [] s"
  by (simp add: writesDone_def)

lemma writesDone_insert:
  assumes injg: "inj_on (generateHandle lw) V"
    and inv: "schedInv lw V s x"
    and dn: "writesDone s ws x"
    and adm: "admissible lw V s (Insert c)"
  shows "writesDone s (ws @ [Insert c]) (insertRow x c)"
proof -
  have sub: "set (rows x) \<subseteq> set (rows (insertRow x c))"
    by (auto simp: insertRow_def)
  have new: "\<exists>r\<in>set (rows (insertRow x c)). row_title r = Title c \<and> row_handle r = Some (Handle c)"
  proof (cases "Some (Handle c) \<in> set (map row_handle (rows x))")
    case True
    then obtain r where r: "r \<in> set (rows x)" "row_handle r = Some (Handle c)" by auto
    from row_with_new_handle [OF injg inv adm r] r sub show ?thesis by blast
  next
    case False
    then show ?thesis by (simp add: insertRow_def)
  qed
  from dn have
    d1: "\<forall>c. Insert c \<in> set ws \<longrightarrow>
        (\<exists>r\<in>set (rows x). row_title r = Title c \<and> row_handle r = Some (Handle c))" and
    d2: "\<forall>u. Update u \<in> set ws \<longrightarrow>
        (\<exists>r\<in>set (rows x). row_id r = ID u \<and> row_title r = Title u \<and>
           row_handle r = Some (Handle u))" and
    d3: "\<forall>r0\<in>set (rows s). (\<forall>u. Update u \<in> set ws \<longrightarrow> ID u \<noteq> row_id r0) \<longrightarrow>
        r0 \<in> set (rows x)"
    unfolding writesDone_def by blast+
  have e1: "\<forall>c'. Insert c' \<in> set (ws @ [Insert c]) \<longrightarrow>
        (\<exists>r\<in>set (rows (insertRow x c)). row_title r = Title c' \<and>
           row_handle r = Some (Handle c'))"
  proof (intro allI impI)
    fix c' assume "Insert c' \<in> set (ws @ [Insert c])"
    then consider "Insert c' \<in> set ws" | "c' = c" by auto
    then show "\<exists>r\<in>set (rows (insertRow x c)). row_title r = Title c' \<and>
           row_handle r = Some (Handle c')"
    proof cases
      case 1
      with d1 sub show ?thesis by blast
    next
      case 2
      with new show ?thesis by simp
    qed
  qed
  have e2: "\<forall>u. Update u \<in> set (ws @ [Insert c]) \<longrightarrow>
        (\<exists>r\<in>set (rows (insertRow x c)). row_id r = ID u \<and> row_title r = Title u \<and>
           row_handle r = Some (Handle u))"
    using d2 sub by auto
  have e3: "\<forall>r0\<in>set (rows s). (\<forall>u. Update u \<in> set (ws @ [Insert c]) \<longrightarrow> ID u \<noteq> row_id r0) \<longrightarrow>
        r0 \<in> set (rows (insertRow x c))"
    using d3 sub by auto
  show ?thesis
    unfolding writesDone_def using e1 e2 e3 by blast
qed

lemma writesDone_update:
  assumes ok: "storeOK lw s"
    and injk: "inj_on (normalizeTitle lw) V"
    and inv: "schedInv lw V s x"
    and dn: "writesDone s ws x"
    and adms: "\<forall>w\<in>set ws. admissible lw V s w"
    and adm: "admissible lw V s (Update u)"
  shows "writesDone s (ws @ [Update u]) (updateRow x u)"
proof -
  let ?f = "\<lambda>r. if row_id r = ID u
              then r\<lparr>row_title := Title u, row_handle := Some (Handle u)\<rparr> else r"
  have rows': "rows (updateRow x u) = map ?f (rows x)" by (rule updateRow_rows)
  have keep: "r \<in> set (rows (updateRow x u))" if "r \<in> set (rows x)" "row_id r \<noteq> ID u" for r
  proof -
    from that have "?f r = r" by simp
    with that(1) show ?thesis unfolding rows' by force
  qed
  have hit: "\<exists>r'\<in>set (rows (updateRow x u)). row_id r' = ID u \<and> row_title r' = Title u \<and>
      row_handle r' = Some (Handle u)" if "r \<in> set (rows x)" "row_id r = ID u" for r
  proof -
    from that(1) have "?f r \<in> set (rows (updateRow x u))" unfolding rows' by simp
    moreover from that(2) have "row_id (?f r) = ID u \<and> row_title (?f r) = Title u \<and>
      row_handle (?f r) = Some (Handle u)" by simp
    ultimately show ?thesis by blast
  qed
  from adm obtain r0u where r0u: "r0u \<in> set (rows s)" "row_id r0u = ID u"
      "rowKey lw r0u = normalizeTitle lw (Title u)"
    and tu: "Title u \<in> V" and hu: "Handle u = generateHandle lw (Title u)"
    by auto
  have idu: "ID u < nextID s"
    using storeOK_ids [OF ok r0u(1)] r0u(2) by simp
  have ids: "distinct (map row_id (rows s))"
    using ok by (simp add: storeOK_def)
  note i = schedInv_D [OF inv]
  from dn have
    d1: "\<forall>c. Insert c \<in> set ws \<longrightarrow>
        (\<exists>r\<in>set (rows x). row_title r = Title c \<and> row_handle r = Some (Handle c))" and
    d2: "\<forall>u. Update u \<in> set ws \<longrightarrow>
        (\<exists>r\<in>set (rows x). row_id r = ID u \<and> row_title r = Title u \<and>
           row_handle r = Some (Handle u))" and
    d3: "\<forall>r0\<in>set (rows s). (\<forall>u. Update u \<in> set ws \<longrightarrow> ID u \<noteq> row_id r0) \<longrightarrow>
        r0 \<in> set (rows x)"
    unfolding writesDone_def by blast+
  have e1: "\<forall>c. Insert c \<in> set (ws @ [Update u]) \<longrightarrow>
        (\<exists>r\<in>set (rows (updateRow x u)). row_title r = Title c \<and>
           row_handle r = Some (Handle c))"
  proof (intro allI impI)
    fix c assume "Insert c \<in> set (ws @ [Update u])"
    then have c: "Insert c \<in> set ws" by simp
    with adms have admc: "admissible lw V s (Insert c)" by blast
    from d1 c obtain r where r: "r \<in> set (rows x)" "row_title r = Title c"
        "row_handle r = Some (Handle c)" by blast
    have "row_id r \<noteq> ID u"
    proof
      assume "row_id r = ID u"
      with idu i(4) r(1) obtain r0 where "r0 \<in> set (rows s)" "rowKey lw r0 = rowKey lw r"
        by auto
      with admc r(2) show False by (auto simp: rowKey_def)
    qed
    from keep [OF r(1) this] r(2,3)
    show "\<exists>r\<in>set (rows (updateRow x u)). row_title r = Title c \<and>
           row_handle r = Some (Handle c)" by blast
  qed
  have e2: "\<forall>u'. Update u' \<in> set (ws @ [Update u]) \<longrightarrow>
        (\<exists>r\<in>set (rows (updateRow x u)). row_id r = ID u' \<and> row_title r = Title u' \<and>
           row_handle r = Some (Handle u'))"
  proof (intro allI impI)
    fix u' assume "Update u' \<in> set (ws @ [Update u])"
    then consider "u' = u" | "Update u' \<in> set ws" by auto
    then show "\<exists>r\<in>set (rows (updateRow x u)). row_id r = ID u' \<and> row_title r = Title u' \<and>
           row_handle r = Some (Handle u')"
    proof cases
      case 1
      from i(7) r0u(1,2) obtain r where "r \<in> set (rows x)" "row_id r = ID u" by force
      from hit [OF this] 1 show ?thesis by simp
    next
      case 2
      with adms have "admissible lw V s (Update u')" by blast
      then obtain r0' where r0': "r0' \<in> set (rows s)" "row_id r0' = ID u'"
          "rowKey lw r0' = normalizeTitle lw (Title u')"
        and tu': "Title u' \<in> V" and hu': "Handle u' = generateHandle lw (Title u')"
        by auto
      from d2 2 obtain r where r: "r \<in> set (rows x)" "row_id r = ID u'"
          "row_title r = Title u'" "row_handle r = Some (Handle u')" by blast
      show ?thesis
      proof (cases "ID u' = ID u")
        case True
        have "r0' = r0u"
          using same_id_same_row [OF ids r0'(1) r0u(1)] r0'(2) r0u(2) True by simp
        with r0'(3) r0u(3) have "normalizeTitle lw (Title u') = normalizeTitle lw (Title u)"
          by simp
        with tu tu' injk have t: "Title u' = Title u" by (simp add: inj_on_def)
        with hu hu' have h: "Handle u' = Handle u" by simp
        from r(1,2) True have "\<exists>r'\<in>set (rows (updateRow x u)). row_id r' = ID u \<and>
            row_title r' = Title u \<and> row_handle r' = Some (Handle u)"
          by (intro hit) simp_all
        with True t h show ?thesis by simp
      next
        case False
        with r(2) have "row_id r \<noteq> ID u" by simp
        from keep [OF r(1) this] r(2,3,4) show ?thesis by blast
      qed
    qed
  qed
  have e3: "\<forall>r0\<in>set (rows s). (\<forall>u'. Update u' \<in> set (ws @ [Update u]) \<longrightarrow> ID u' \<noteq> row_id r0) \<longrightarrow>
        r0 \<in> set (rows (updateRow x u))"
  proof (intro ballI impI)
    fix r0 assume r0: "r0 \<in> set (rows s)"
      and no: "\<forall>u'. Update u' \<in> set (ws @ [Update u]) \<longrightarrow> ID u' \<noteq> row_id r0"
    then have "\<forall>u'. Update u' \<in> set ws \<longrightarrow> ID u' \<noteq> row_id r0" by simp
    with d3 r0 have "r0 \<in> set (rows x)" by blast
    moreover from no have "row_id r0 \<noteq> ID u" by auto
    ultimately show "r0 \<in> set (rows (updateRow x u))" by (rule keep)
  qed
  show ?thesis
    unfolding writesDone_def using e1 e2 e3 by blast
qed

lemma schedule_invariants:
  assumes ok: "storeOK lw s"
    and injk: "inj_on (normalizeTitle lw) V"
    and injg: "inj_on (generateHandle lw) V"
    and adms: "\<forall>w\<in>set ws. admissible lw V s w"
  shows "schedInv lw V s (applyWrites s ws) \<and> writesDone s ws (applyWrites s ws)"
  using adms
proof (induction ws rule: rev_induct)
  case Nil
  show ?case
    by (simp add: applyWrites_Nil schedInv_init [OF ok] writesDone_init)
next
  case (snoc w ws)
  then have inv: "schedInv lw V s (applyWrites s ws)"
    and dn: "writesDone s ws (applyWrites s ws)"
    and adms': "\<forall>w\<in>set ws. admissible lw V s w"
    and adm: "admissible lw V s w"
    by simp_all
  show ?case
  proof (cases w)
    case (Insert c)
    from adm have a: "admissible lw V s (Insert c)" unfolding Insert .
    show ?thesis
      unfolding applyWrites_snoc Insert applyWrite.simps
      using schedInv_insert [OF injk inv a] writesDone_insert [OF injg inv dn a] by simp
  next
    case (Update u)
    from adm have a: "admissible lw V s (Update u)" unfolding Update .
    show ?thesis
      unfolding applyWrites_snoc Update applyWrite.simps
      using schedInv_update [OF ok inv a] writesDone_update [OF ok injk inv dn adms' a] by simp
  qed
qed

lemma buildProductMap_None_iff:
  "buildProductMap lw ps k = None \<longleftrightarrow> (\<forall>p\<in>set ps. normalizeTitle lw (Title p) \<noteq> k)"
  by (simp add: buildProductMap_last filter_empty_conv)

lemma buildProductMap_SomeD:
  assumes "buildProductMap lw ps k = Some p"
  shows "p \<in> set ps \<and> normalizeTitle lw (Title p) = k"
proof -
  let ?qs = "filter (\<lambda>p. normalizeTitle lw (Title p) = k) ps"
  from assms have ne: "?qs \<noteq> []" and p: "p = last ?qs"
    by (simp_all add: buildProductMap_last split: if_splits)
  from ne have "last ?qs \<in> set ?qs" by (rule last_in_set)
  with p show ?thesis by simp
qed

lemma buildProductMap_SomeI:
  "distinct (map (\<lambda>p. normalizeTitle lw (Title p)) ps) \<Longrightarrow> p \<in> set ps \<Longrightarrow>
   buildProductMap lw ps (normalizeTitle lw (Title p)) = Some p"
proof (induction ps rule: rev_induct)
  case Nil
  then show ?case by simp
next
  case (snoc q ps)
  show ?case
  proof (cases "p = q")
    case True
    then show ?thesis by (simp add: buildProductMap_snoc)
  next
    case False
    with snoc.prems have p: "p \<in> set ps"
      and d: "distinct (map (\<lambda>p. normalizeTitle lw (Title p)) ps)"
      and nq: "normalizeTitle lw (Title q) \<notin> (\<lambda>p. normalizeTitle lw (Title p)) ` set ps"
      by simp_all
    from nq p have "normalizeTitle lw (Title q) \<noteq> normalizeTitle lw (Title p)" by force
    with snoc.IH [OF d p] show ?thesis by (simp add: buildProductMap_snoc)
  qed
qed

lemma set_GetAllProducts: "set (GetAllProducts s) = scanRow ` set (rows s)"
  by (simp add: GetAllProducts_def)

lemma Title_scanRow: "Title (scanRow r) = row_title r"
  by (simp add: scanRow_def)

lemma ID_scanRow: "ID (scanRow r) = row_id r"
  by (simp add: scanRow_def)

lemma distinct_keys_GetAllProducts:
  assumes "distinct (map (rowKey lw) (rows s))"
  shows "distinct (map (\<lambda>p. normalizeTitle lw (Title p)) (GetAllProducts s))"
proof -
  have "map (\<lambda>p. normalizeTitle lw (Title p)) (GetAllProducts s) =
      map (rowKey lw) (sort_key row_id (rows s))"
    by (simp add: GetAllProducts_def comp_def Title_scanRow rowKey_def)
  moreover have "distinct (map (rowKey lw) (sort_key row_id (rows s)))"
    using assms by (simp add: distinct_map)
  ultimately show ?thesis by simp
qed

lemma lookup_None_iff:
  "buildProductMap lw (GetAllProducts s) k = None \<longleftrightarrow> (\<forall>r\<in>set (rows s). rowKey lw r \<noteq> k)"
  by (simp add: buildProductMap_None_iff set_GetAllProducts Title_scanRow rowKey_def)

lemma lookup_SomeD:
  assumes "buildProductMap lw (GetAllProducts s) k = Some p"
  shows "\<exists>r\<in>set (rows s). p = scanRow r \<and> rowKey lw r = k"
  using buildProductMap_SomeD [OF assms]
  by (auto simp: set_GetAllProducts Title_scanRow rowKey_def)

lemma lookup_SomeI:
  assumes "distinct (map (rowKey lw) (rows s))" "r \<in> set (rows s)"
  shows "buildProductMap lw (GetAllProducts s) (rowKey lw r) = Some (scanRow r)"
proof -
  have "scanRow r \<in> set (GetAllProducts s)"
    using assms(2) by (simp add: set_GetAllProducts)
  from buildProductMap_SomeI [OF distinct_keys_GetAllProducts [OF assms(1)] this]
  show ?thesis by (simp add: Title_scanRow rowKey_def)
qed

lemma pass_writes_admissible:
  assumes free: "\<forall>c\<in>set (itemsToCreate (syncPass lw s items)).
      Some (Handle c) \<notin> set (map row_handle (rows s))"
    and ws: "ws \<in> schedules (syncPass lw s items)"
  shows "\<forall>w\<in>set ws. admissible lw (set (validTitles items)) s w"
proof
  fix w assume "w \<in> set ws"
  with set_shuffles [OF ws [unfolded schedules_def]]
  consider c where "w = Insert c" "c \<in> set (itemsToCreate (syncPass lw s items))"
    | u where "w = Update u" "u \<in> set (itemsToUpdate (syncPass lw s items))"
    by auto
  then show "admissible lw (set (validTitles items)) s w"
  proof cases
    case 1
    from 1(2) obtain t where t: "t \<in> set (validTitles items)"
        "buildProductMap lw (GetAllProducts s) (normalizeTitle lw t) = None"
        "c = \<lparr>Title = t, Handle = generateHandle lw t\<rparr>"
      by (auto simp: syncPass_def classify_itemsToCreate)
    from t(2) have "\<forall>r\<in>set (rows s). rowKey lw r \<noteq> normalizeTitle lw t"
      by (simp add: lookup_None_iff)
    moreover from free 1(2) have "Some (Handle c) \<notin> set (map row_handle (rows s))" by blast
    ultimately show ?thesis using t(1,3) 1(1) by simp
  next
    case 2
    from 2(2) obtain t p where t: "t \<in> set (validTitles items)"
        "buildProductMap lw (GetAllProducts s) (normalizeTitle lw t) = Some p"
        "u = \<lparr>Title = t, Handle = generateHandle lw t, ID = ID p\<rparr>"
      by (auto simp: syncPass_def classify_itemsToUpdate)
    from lookup_SomeD [OF t(2)] obtain r where "r \<in> set (rows s)" "p = scanRow r"
        "rowKey lw r = normalizeTitle lw t" by blast
    then have "\<exists>r\<in>set (rows s). row_id r = ID u \<and> rowKey lw r = normalizeTitle lw (Title u)"
      using t(3) by (auto simp: ID_scanRow)
    then show ?thesis using t(1,3) 2(1) by simp
  qed
qed

text \<open>After the writes of the pass, every valid remote title is in the table with its handle.\<close>

lemma rows_after_pass:
  assumes ok: "storeOK lw s"
    and injk: "inj_on (normalizeTitle lw) (set (validTitles items))"
    and ws: "ws \<in> schedules (syncPass lw s items)"
    and dn: "writesDone s ws x"
    and t: "t \<in> set (validTitles items)"
  shows "\<exists>r\<in>set (rows x). row_title r = t \<and> Handle (scanRow r) = generateHandle lw t"
proof -
  let ?m = "buildProductMap lw (GetAllProducts s)"
  have sw: "set ws = Insert ` set (itemsToCreate (syncPass lw s items)) \<union>
      Update ` set (itemsToUpdate (syncPass lw s items))"
    using set_shuffles [OF ws [unfolded schedules_def]] by simp
  from dn have
    d1: "\<forall>c. Insert c \<in> set ws \<longrightarrow>
        (\<exists>r\<in>set (rows x). row_title r = Title c \<and> row_handle r = Some (Handle c))" and
    d2: "\<forall>u. Update u \<in> set ws \<longrightarrow>
        (\<exists>r\<in>set (rows x). row_id r = ID u \<and> row_title r = Title u \<and>
           row_handle r = Some (Handle u))" and
    d3: "\<forall>r0\<in>set (rows s). (\<forall>u. Update u \<in> set ws \<longrightarrow> ID u \<noteq> row_id r0) \<longrightarrow>
        r0 \<in> set (rows x)"
    unfolding writesDone_def by blast+
  show ?thesis
  proof (cases "?m (normalizeTitle lw t)")
    case None
    let ?c = "\<lparr>Title = t, Handle = generateHandle lw t\<rparr>"
    have "?c \<in> set (itemsToCreate (syncPass lw s items))"
      using t None by (simp add: syncPass_def classify_itemsToCreate)
    then have "Insert ?c \<in> set ws" by (simp add: sw)
    with d1 obtain r where "r \<in> set (rows x)" "row_title r = t"
        "row_handle r = Some (generateHandle lw t)" by force
    then show ?thesis by (auto simp: scanRow_def)
  next
    case (Some p)
    show ?thesis
    proof (cases "Title p \<noteq> t \<or> Handle p \<noteq> generateHandle lw t")
      case True
      let ?u = "\<lparr>Title = t, Handle = generateHandle lw t, ID = ID p\<rparr>"
      have "?u \<in> set (itemsToUpdate (syncPass lw s items))"
        unfolding syncPass_def classify_itemsToUpdate using t Some True by force
      then have "Update ?u \<in> set ws" by (simp add: sw)
      with d2 obtain r where "r \<in> set (rows x)" "row_title r = t"
          "row_handle r = Some (generateHandle lw t)" by force
      then show ?thesis by (auto simp: scanRow_def)
    next
      case False
      then have same: "Title p = t" "Handle p = generateHandle lw t" by simp_all
      from lookup_SomeD [OF Some] obtain r0 where r0: "r0 \<in> set (rows s)" "p = scanRow r0"
          "rowKey lw r0 = normalizeTitle lw t" by blast
      have ids: "distinct (map row_id (rows s))"
        using ok by (simp add: storeOK_def)
      have "\<forall>u. Update u \<in> set ws \<longrightarrow> ID u \<noteq> row_id r0"
      proof (intro allI impI notI)
        fix u assume "Update u \<in> set ws" and eq: "ID u = row_id r0"
        then have "u \<in> set (itemsToUpdate (syncPass lw s items))" by (auto simp: sw)
        then obtain t' p' where t': "t' \<in> set (validTitles items)"
            "?m (normalizeTitle lw t') = Some p'"
            "Title p' \<noteq> t' \<or> Handle p' \<noteq> generateHandle lw t'"
            "u = \<lparr>Title = t', Handle = generateHandle lw t', ID = ID p'\<rparr>"
          by (auto simp: syncPass_def classify_itemsToUpdate)
        from lookup_SomeD [OF t'(2)] obtain r0' where r0': "r0' \<in> set (rows s)"
            "p' = scanRow r0'" "rowKey lw r0' = normalizeTitle lw t'" by blast
        have "row_id r0' = row_id r0"
          using eq t'(4) r0'(2) by (simp add: ID_scanRow)
        from same_id_same_row [OF ids r0'(1) r0(1) this] have "r0' = r0" .
        with r0'(3) r0(3) have "normalizeTitle lw t' = normalizeTitle lw t" by simp
        with injk t t'(1) have "t' = t" by (simp add: inj_on_def)
        with t'(2) Some have "p' = p" by simp
        with t'(3) \<open>t' = t\<close> same show False by simp
      qed
      with d3 r0(1) have "r0 \<in> set (rows x)" by blast
      moreover have "row_title r0 = t"
        using same(1) r0(2) by (simp add: Title_scanRow)
      moreover have "Handle (scanRow r0) = generateHandle lw t"
        using same(2) r0(2) by simp
      ultimately show ?thesis by blast
    qed
  qed
qed

text \<open>A pass over a table that holds every valid remote title with its handle.\<close>

lemma pass_over_synced_table:
  assumes keys: "distinct (map (rowKey lw) (rows x))"
    and all: "\<forall>t\<in>set (validTitles items).
      \<exists>r\<in>set (rows x). row_title r = t \<and> Handle (scanRow r) = generateHandle lw t"
  shows "itemsToCreate (syncPass lw x items) = []"
    and "itemsToUpdate (syncPass lw x items) = []"
    and "Unchanged (result (syncPass lw x items)) = int (length (validTitles items))"
proof -
  let ?m = "buildProductMap lw (GetAllProducts x)"
  have found: "\<exists>p. ?m (normalizeTitle lw t) = Some p \<and> Title p = t \<and>
      Handle p = generateHandle lw t" if "t \<in> set (validTitles items)" for t
  proof -
    from all that obtain r where r: "r \<in> set (rows x)" "row_title r = t"
        "Handle (scanRow r) = generateHandle lw t" by blast
    from lookup_SomeI [OF keys r(1)] r(2)
    have "?m (normalizeTitle lw t) = Some (scanRow r)" by (simp add: rowKey_def)
    with r(2,3) show ?thesis by (simp add: Title_scanRow)
  qed
  have "filter (\<lambda>t. ?m (normalizeTitle lw t) = None) (validTitles items) = []"
    using found by (auto simp: filter_empty_conv)
  then show "itemsToCreate (syncPass lw x items) = []"
    by (simp add: syncPass_def classify_itemsToCreate)
  have "\<not> (\<exists>p. ?m (normalizeTitle lw t) = Some p \<and>
        (Title p \<noteq> t \<or> Handle p \<noteq> generateHandle lw t))"
    if "t \<in> set (validTitles items)" for t
  proof
    assume "\<exists>p. ?m (normalizeTitle lw t) = Some p \<and>
        (Title p \<noteq> t \<or> Handle p \<noteq> generateHandle lw t)"
    then obtain p where p: "?m (normalizeTitle lw t) = Some p"
        "Title p \<noteq> t \<or> Handle p \<noteq> generateHandle lw t" by blast
    from found [OF that] obtain q where q: "?m (normalizeTitle lw t) = Some q"
        "Title q = t" "Handle q = generateHandle lw t" by blast
    from p(1) q(1) have "p = q" by simp
    with p(2) q(2,3) show False by simp
  qed
  then have "filter (\<lambda>t. \<exists>p. ?m (normalizeTitle lw t) = Some p \<and>
        (Title p \<noteq> t \<or> Handle p \<noteq> generateHandle lw t)) (validTitles items) = []"
    by (simp add: filter_empty_conv)
  then show "itemsToUpdate (syncPass lw x items) = []"
    by (simp add: syncPass_def classify_itemsToUpdate)
  have "filter (\<lambda>t. \<exists>p. ?m (normalizeTitle lw t) = Some p \<and>
        Title p = t \<and> Handle p = generateHandle lw t) (validTitles items) = validTitles items"
    using found by (intro filter_True) blast
  then show "Unchanged (result (syncPass lw x items)) = int (length (validTitles items))"
    by (simp add: syncPass_def classify_Unchanged)
qed

text \<open>
  C2, as amended. Let the pass read a store that satisfies the invariants of the
  table; let the valid remote titles have pairwise distinct normalized titles and
  pairwise distinct handles; let no handle of the create batch be held by a row of
  the store. When the writes of the two batches are applied, in any interleaving of
  the statements of the two transactions, a second pass over the same remote records
  finds both batches empty: it reports 0 created, 0 updated, and every valid record
  unchanged.
\<close>
theorem C2_second_pass_idempotent:
  "storeOK lw s \<and>
   inj_on (normalizeTitle lw) (set (validTitles items)) \<and>
   inj_on (generateHandle lw) (set (validTitles items)) \<and>
   (\<forall>c\<in>set (itemsToCreate (syncPass lw s items)).
      Some (Handle c) \<notin> set (map row_handle (rows s))) \<and>
   ws \<in> schedules (syncPass lw s items) \<longrightarrow>
     itemsToCreate (syncPass lw (applyWrites s ws) items) = [] \<and>
     itemsToUpdate (syncPass lw (applyWrites s ws) items) = [] \<and>
     map_sum id (\<lambda>r. (Created r, Updated r, Unchanged r))
       (CompareAndSync lw (Inr (GetAllProducts (applyWrites s ws))) items) =
       Inr (0, 0, int (length (validTitles items)))"
proof (intro impI)
  let ?V = "set (validTitles items)"
  let ?x = "applyWrites s ws"
  assume a: "storeOK lw s \<and>
   inj_on (normalizeTitle lw) ?V \<and>
   inj_on (generateHandle lw) ?V \<and>
   (\<forall>c\<in>set (itemsToCreate (syncPass lw s items)).
      Some (Handle c) \<notin> set (map row_handle (rows s))) \<and>
   ws \<in> schedules (syncPass lw s items)"
  then have ok: "storeOK lw s"
    and injk: "inj_on (normalizeTitle lw) ?V"
    and injg: "inj_on (generateHandle lw) ?V"
    and free: "\<forall>c\<in>set (itemsToCreate (syncPass lw s items)).
      Some (Handle c) \<notin> set (map row_handle (rows s))"
    and ws: "ws \<in> schedules (syncPass lw s items)"
    by blast+
  have adms: "\<forall>w\<in>set ws. admissible lw ?V s w"
    using free ws by (rule pass_writes_admissible)
  from schedule_invariants [OF ok injk injg adms]
  have inv: "schedInv lw ?V s ?x" and dn: "writesDone s ws ?x" by blast+
  have keys: "distinct (map (rowKey lw) (rows ?x))"
    by (rule schedInv_D(6) [OF inv])
  have all: "\<forall>t\<in>?V. \<exists>r\<in>set (rows ?x). row_title r = t \<and>
      Handle (scanRow r) = generateHandle lw t"
    using rows_after_pass [OF ok injk ws dn] by blast
  note p = pass_over_synced_table [OF keys all]
  have run: "CompareAndSync lw (Inr (GetAllProducts ?x)) items = Inr (result (syncPass lw ?x items))"
    using p(1) by (simp add: CompareAndSync_def syncPass_def dispatch_no_create)
  have tallies: "Created (result (syncPass lw ?x items)) = 0"
      "Updated (result (syncPass lw ?x items)) = 0"
    by (simp_all add: syncPass_def classify_Created_Updated)
  show "itemsToCreate (syncPass lw ?x items) = [] \<and>
     itemsToUpdate (syncPass lw ?x items) = [] \<and>
     map_sum id (\<lambda>r. (Created r, Updated r, Unchanged r))
       (CompareAndSync lw (Inr (GetAllProducts ?x)) items) =
       Inr (0, 0, int (length (validTitles items)))"
    using p tallies by (simp add: run)
qed

text \<open>
  The store holds "Product A" with an old handle; the remote records are "Product A"
  and "Product B". The first pass updates one row and creates one; after the insert
  and the update the second pass reports 0 created, 0 updated, 2 unchanged.
\<close>
theorem C2_second_pass_idempotent_witness:
  "storeOK toLowerLatin1 storeA \<and>
   [Insert \<lparr>Title = runes ''Product B'', Handle = runes ''product-b''\<rparr>,
    Update \<lparr>Title = runes ''Product A'', Handle = runes ''product-a'', ID = 1\<rparr>]
     \<in> schedules (syncPass toLowerLatin1 storeA itemsAB) \<and>
   applyWrites storeA
     [Insert \<lparr>Title = runes ''Product B'', Handle = runes ''product-b''\<rparr>,
      Update \<lparr>Title = runes ''Product A'', Handle = runes ''product-a'', ID = 1\<rparr>] =
     \<lparr>rows = [\<lparr>row_id = 1, row_title = runes ''Product A'',
                row_handle = Some (runes ''product-a'')\<rparr>,
              \<lparr>row_id = 2, row_title = runes ''Product B'',
                row_handle = Some (runes ''product-b'')\<rparr>],
      nextID = 3\<rparr> \<and>
   CompareAndSync toLowerLatin1 (Inr (GetAllProducts storeA)) itemsAB =
     Inr \<lparr>Created = 1, Updated = 0, Unchanged = 0, Errors = []\<rparr> \<and>
   map_sum id (\<lambda>r. (Created r, Updated r, Unchanged r))
     (CompareAndSync toLowerLatin1
        (Inr (GetAllProducts (applyWrites storeA
          [Insert \<lparr>Title = runes ''Product B'', Handle = runes ''product-b''\<rparr>,
           Update \<lparr>Title = runes ''Product A'', Handle = runes ''product-a'', ID = 1\<rparr>])))
        itemsAB) = Inr (0, 0, 2)"
proof -
  let ?ws = "[Insert \<lparr>Title = runes ''Product B'', Handle = runes ''product-b''\<rparr>,
      Update \<lparr>Title = runes ''Product A'', Handle = runes ''product-a'', ID = 1\<rparr>]"
  have ok: "storeOK toLowerLatin1 storeA"
    by (simp add: storeOK_def storeA_def rowKey_def)
  have vt: "validTitles itemsAB = [runes ''Product A'', runes ''Product B'']"
    by (simp add: scenario_defs itemsAB_def)
  have ik: "inj_on (normalizeTitle toLowerLatin1) (set (validTitles itemsAB))"
    unfolding vt by (simp add: scenario_defs)
  have ig: "inj_on (generateHandle toLowerLatin1) (set (validTitles itemsAB))"
    unfolding vt by (simp add: scenario_defs)
  have cs: "itemsToCreate (syncPass toLowerLatin1 storeA itemsAB) =
      [\<lparr>Title = runes ''Product B'', Handle = runes ''product-b''\<rparr>]"
    by (simp add: scenario_defs store_defs storeA_def itemsAB_def)
  have us: "itemsToUpdate (syncPass toLowerLatin1 storeA itemsAB) =
      [\<lparr>Title = runes ''Product A'', Handle = runes ''product-a'', ID = 1\<rparr>]"
    by (simp add: scenario_defs store_defs storeA_def itemsAB_def)
  have free: "\<forall>c\<in>set (itemsToCreate (syncPass toLowerLatin1 storeA itemsAB)).
      Some (Handle c) \<notin> set (map row_handle (rows storeA))"
    unfolding cs by (simp add: storeA_def runes_def)
  have sch: "?ws \<in> schedules (syncPass toLowerLatin1 storeA itemsAB)"
    using sequential_schedule [of "syncPass toLowerLatin1 storeA itemsAB"]
    by (simp only: cs us list.map append.simps)
  have app: "applyWrites storeA ?ws =
     \<lparr>rows = [\<lparr>row_id = 1, row_title = runes ''Product A'',
                row_handle = Some (runes ''product-a'')\<rparr>,
              \<lparr>row_id = 2, row_title = runes ''Product B'',
                row_handle = Some (runes ''product-b'')\<rparr>],
      nextID = 3\<rparr>"
    by (simp add: store_defs storeA_def runes_def)
  have first: "CompareAndSync toLowerLatin1 (Inr (GetAllProducts storeA)) itemsAB =
     Inr \<lparr>Created = 1, Updated = 0, Unchanged = 0, Errors = []\<rparr>"
    by (simp add: scenario_defs store_defs storeA_def itemsAB_def)
  note C2_second_pass_idempotent [of toLowerLatin1 storeA itemsAB ?ws, rule_format,
      OF conjI [OF ok conjI [OF ik conjI [OF ig conjI [OF free sch]]]]]
  then have second: "map_sum id (\<lambda>r. (Created r, Updated r, Unchanged r))
     (CompareAndSync toLowerLatin1 (Inr (GetAllProducts (applyWrites storeA ?ws))) itemsAB) =
     Inr (0, 0, 2)"
    by (simp add: vt)
  show ?thesis
    by (intro conjI) (fact ok, fact sch, fact app, fact first, fact second)
qed

text \<open>
  C2. The claim as stated, for every store and every remote list, fails where two
  remote titles have different keys and the same handle. "A B" and "A_B" against the
  empty store: both are in the create batch, the batch insert skips the second on the
  conflict of the handle "a-b", and the second pass over the table that results
  finds no row with the key "a_b": it reports one record created.
\<close>
theorem C2_counterexample_handle_collision:
  "itemsToCreate (syncPass toLowerLatin1 emptyStore collidingItems) =
     [\<lparr>Title = runes ''A B'', Handle = runes ''a-b''\<rparr>,
      \<lparr>Title = runes ''A_B'', Handle = runes ''a-b''\<rparr>] \<and>
   itemsToUpdate (syncPass toLowerLatin1 emptyStore collidingItems) = [] \<and>
   CreateProductsBatch NoFault emptyStore
       (itemsToCreate (syncPass toLowerLatin1 emptyStore collidingItems)) =
     Inr \<lparr>rows = [\<lparr>row_id = 1, row_title = runes ''A B'', row_handle = Some (runes ''a-b'')\<rparr>],
          nextID = 2\<rparr> \<and>
   CompareAndSync toLowerLatin1
       (Inr (GetAllProducts
          \<lparr>rows = [\<lparr>row_id = 1, row_title = runes ''A B'', row_handle = Some (runes ''a-b'')\<rparr>],
           nextID = 2\<rparr>))
       collidingItems =
     Inr \<lparr>Created = 1, Updated = 0, Unchanged = 1, Errors = []\<rparr>"
  by (simp add: scenario_defs store_defs collidingItems_def)

end
